theory Spec2Isabelle
  imports Complex_Main "HOL-Library.List_Lexorder"
begin

section \<open>Entropy-based binning: the model of entropy_based_binning.py\<close>

text \<open>
  The module bins a sequence of integers (with NaN as the missing marker) into
  \<open>nbins\<close> contiguous groups of its value range, choosing the grouping whose
  occupancy histogram has the largest Shannon entropy.

  Python exceptions are values of \<open>error\<close>; a function that can raise returns
  \<open>error + 'a\<close> with \<open>Inl\<close> the exception. The module defines no exception class
  of its own. The spec's InvalidInputError is the \<open>AssertionError\<close> of the first
  statement of \<open>bin_sequence\<close>, and its EmptyInputError the \<open>ValueError\<close> of the
  range computation. Nothing in the code stands for its InfeasibleBinCountError:
  \<open>nbins\<close> is never checked, and an infeasible \<open>nbins\<close> ends in the \<open>ValueError\<close>
  of \<open>itertools.combinations\<close> or in the \<open>UnboundLocalError\<close> of the unassigned
  \<open>best_binning\<close>.
\<close>

datatype error = AssertionError | ValueError | OverflowError | UnboundLocalError

subsection \<open>Array elements\<close>

text \<open>
  An element of a float array is NaN, an infinity or a finite number. A finite double is
  modelled by the real number it denotes: rounding and the sign of zero are not
  modelled, so two scores that differ in the code by a rounding error are equal here, and
  the comparisons are those of the reals. An integer array is the special case whose
  elements are all \<open>Fin (of_int n)\<close>.
\<close>

datatype pyfloat = NaN | PInf | NInf | Fin real

fun isnan :: "pyfloat \<Rightarrow> bool" where
  "isnan NaN = True"
| "isnan PInf = False"
| "isnan NInf = False"
| "isnan (Fin x) = False"

fun fneg :: "pyfloat \<Rightarrow> pyfloat" where
  "fneg NaN = NaN"
| "fneg PInf = NInf"
| "fneg NInf = PInf"
| "fneg (Fin x) = Fin (- x)"

fun fadd :: "pyfloat \<Rightarrow> pyfloat \<Rightarrow> pyfloat" where
  "fadd (Fin x) (Fin y) = Fin (x + y)"
| "fadd NaN y = NaN"
| "fadd x NaN = NaN"
| "fadd PInf NInf = NaN"
| "fadd NInf PInf = NaN"
| "fadd PInf y = PInf"
| "fadd x PInf = PInf"
| "fadd NInf y = NInf"
| "fadd x NInf = NInf"

fun finf :: "bool \<Rightarrow> pyfloat" where
  "finf True = PInf"
| "finf False = NInf"

fun fmul :: "pyfloat \<Rightarrow> pyfloat \<Rightarrow> pyfloat" where
  "fmul (Fin x) (Fin y) = Fin (x * y)"
| "fmul NaN y = NaN"
| "fmul x NaN = NaN"
| "fmul (Fin x) PInf = (if x = 0 then NaN else finf (0 < x))"
| "fmul (Fin x) NInf = (if x = 0 then NaN else finf (x < 0))"
| "fmul PInf (Fin y) = (if y = 0 then NaN else finf (0 < y))"
| "fmul NInf (Fin y) = (if y = 0 then NaN else finf (y < 0))"
| "fmul PInf PInf = PInf"
| "fmul NInf NInf = PInf"
| "fmul PInf NInf = NInf"
| "fmul NInf PInf = NInf"

text \<open>Division; a zero divisor is the positive zero (here it is a sum of counts).\<close>

fun fdiv :: "pyfloat \<Rightarrow> pyfloat \<Rightarrow> pyfloat" where
  "fdiv (Fin x) (Fin y) =
     (if y = 0 then (if x = 0 then NaN else finf (0 < x)) else Fin (x / y))"
| "fdiv NaN y = NaN"
| "fdiv x NaN = NaN"
| "fdiv (Fin x) PInf = Fin 0"
| "fdiv (Fin x) NInf = Fin 0"
| "fdiv PInf (Fin y) = finf (0 \<le> y)"
| "fdiv NInf (Fin y) = finf (y < 0)"
| "fdiv PInf PInf = NaN"
| "fdiv PInf NInf = NaN"
| "fdiv NInf PInf = NaN"
| "fdiv NInf NInf = NaN"

text \<open>\<open>np.log2\<close>: minus infinity at zero, NaN below it.\<close>

fun log2f :: "pyfloat \<Rightarrow> pyfloat" where
  "log2f NaN = NaN"
| "log2f PInf = PInf"
| "log2f NInf = NaN"
| "log2f (Fin x) = (if x = 0 then NInf else if x < 0 then NaN else Fin (log 2 x))"

text \<open>The comparisons \<open>>\<close> and \<open>==\<close>: false whenever an operand is NaN.\<close>

fun fgt :: "pyfloat \<Rightarrow> pyfloat \<Rightarrow> bool" where
  "fgt (Fin x) (Fin y) = (y < x)"
| "fgt NaN y = False"
| "fgt x NaN = False"
| "fgt PInf PInf = False"
| "fgt PInf y = True"
| "fgt NInf y = False"
| "fgt (Fin x) PInf = False"
| "fgt (Fin x) NInf = True"

fun feq :: "pyfloat \<Rightarrow> pyfloat \<Rightarrow> bool" where
  "feq (Fin x) (Fin y) = (x = y)"
| "feq NaN y = False"
| "feq x NaN = False"
| "feq PInf PInf = True"
| "feq NInf NInf = True"
| "feq x y = False"

text \<open>\<open>np.mod(x, 1)\<close>: the fractional part of a finite number, NaN otherwise.\<close>

fun fmod1 :: "pyfloat \<Rightarrow> pyfloat" where
  "fmod1 (Fin x) = Fin (frac x)"
| "fmod1 x = NaN"

text \<open>\<open>np.fmin\<close> and \<open>np.fmax\<close>, which ignore a NaN operand.\<close>

fun fmin :: "pyfloat \<Rightarrow> pyfloat \<Rightarrow> pyfloat" where
  "fmin (Fin x) (Fin y) = Fin (min x y)"
| "fmin NaN y = y"
| "fmin x NaN = x"
| "fmin NInf y = NInf"
| "fmin x NInf = NInf"
| "fmin PInf y = y"
| "fmin x PInf = x"

fun fmax :: "pyfloat \<Rightarrow> pyfloat \<Rightarrow> pyfloat" where
  "fmax (Fin x) (Fin y) = Fin (max x y)"
| "fmax NaN y = y"
| "fmax x NaN = x"
| "fmax PInf y = PInf"
| "fmax x PInf = PInf"
| "fmax NInf y = y"
| "fmax x NInf = x"

text \<open>
  \<open>np.nanmin\<close> and \<open>np.nanmax\<close>: a ValueError on an empty array, NaN (with a
  warning) when every element is NaN, the extremum of the other elements otherwise.
\<close>

definition nanmin :: "pyfloat list \<Rightarrow> error + pyfloat" where
  "nanmin a =
     (if a = [] then Inl ValueError
      else case filter (\<lambda>x. \<not> isnan x) a of
             [] \<Rightarrow> Inr NaN
           | x # xs \<Rightarrow> Inr (fold fmin xs x))"

definition nanmax :: "pyfloat list \<Rightarrow> error + pyfloat" where
  "nanmax a =
     (if a = [] then Inl ValueError
      else case filter (\<lambda>x. \<not> isnan x) a of
             [] \<Rightarrow> Inr NaN
           | x # xs \<Rightarrow> Inr (fold fmax xs x))"

text \<open>
  \<open>np.int\<close> is Python's \<open>int\<close>: it truncates a finite number towards zero and raises
  on NaN ("cannot convert float NaN to integer") and on an infinity.
\<close>

fun py_int :: "pyfloat \<Rightarrow> error + int" where
  "py_int NaN = Inl ValueError"
| "py_int PInf = Inl OverflowError"
| "py_int NInf = Inl OverflowError"
| "py_int (Fin x) = Inr (if 0 \<le> x then \<lfloor>x\<rfloor> else \<lceil>x\<rceil>)"

text \<open>\<open>_isinteger(x)\<close> is \<open>np.equal(np.mod(x, 1), 0)\<close>.\<close>

definition isinteger :: "pyfloat \<Rightarrow> bool" where
  "isinteger x = feq (fmod1 x) (Fin 0)"

subsection \<open>The partition generator\<close>

text \<open>
  \<open>itertools.combinations(pool, r)\<close>: the \<open>r\<close>-element subsequences of \<open>pool\<close>, in
  lexicographic order of their positions; none when \<open>r\<close> exceeds the length of the
  pool, and a ValueError ("r must be non-negative") when \<open>r\<close> is negative.
\<close>

fun combs :: "'a list \<Rightarrow> nat \<Rightarrow> 'a list list" where
  "combs xs 0 = [[]]"
| "combs [] (Suc r) = []"
| "combs (x # xs) (Suc r) = map ((#) x) (combs xs r) @ combs xs (Suc r)"

definition combinations :: "'a list \<Rightarrow> int \<Rightarrow> error + 'a list list" where
  "combinations pool r = (if r < 0 then Inl ValueError else Inr (combs pool (nat r)))"

text \<open>The slice \<open>base[lo: hi]\<close> for indices that are not negative.\<close>

definition slice :: "'a list \<Rightarrow> nat \<Rightarrow> nat \<Rightarrow> 'a list" where
  "slice base lo hi = drop lo (take hi base)"

text \<open>
  The list comprehension of \<open>_generate_bins\<close>,
  \<open>[base[lo: hi] for lo, hi in zip((0,) + ixs, ixs + (nbase,))]\<close>.
\<close>

definition split_at :: "'a list \<Rightarrow> nat list \<Rightarrow> 'a list list" where
  "split_at base ixs = map2 (slice base) (0 # ixs) (ixs @ [length base])"

text \<open>
  \<open>_generate_bins(seq, nbins)\<close>. The generator is run to its end here: it can raise
  only when it is started, at the call of \<open>itertools.combinations\<close>.
\<close>

definition generate_bins :: "'a list \<Rightarrow> int \<Rightarrow> error + 'a list list list" where
  "generate_bins seq nbins =
     (let base = seq; nbase = length base in
      case combinations [1..<nbase] (nbins - 1) of
        Inl e \<Rightarrow> Inl e
      | Inr ixss \<Rightarrow> Inr (map (split_at base) ixss))"

subsection \<open>Applying and scoring a binning\<close>

text \<open>
  The masked assignment \<open>b[a == some_number] = ii\<close>. The comparison is that of the
  exact values: the rounding of an integer beyond \<open>2^53\<close> to a double, which the code's
  comparison of a float array with an integer performs, is not modelled.
\<close>

definition masked_assign :: "pyfloat list \<Rightarrow> pyfloat list \<Rightarrow> int \<Rightarrow> nat \<Rightarrow> pyfloat list" where
  "masked_assign a b some_number ii =
     map2 (\<lambda>x y. if feq x (Fin (of_int some_number)) then Fin (of_nat ii) else y) a b"

text \<open>
  \<open>_apply_binning(a, binning)\<close>: \<open>b\<close> starts as a float array of NaN of the shape of
  \<open>a\<close>; the two loops assign the group indices. The input is modelled as an array of
  doubles, for which the final \<open>astype(a.dtype)\<close> is a copy that changes no element.
  The conversion to an integer dtype is not modelled: there an element left NaN becomes
  the smallest integer, and a label beyond the range of a narrow dtype wraps around.
\<close>

definition apply_binning :: "pyfloat list \<Rightarrow> int list list \<Rightarrow> pyfloat list" where
  "apply_binning a binning =
     fold (\<lambda>(ii, some_bin) b. fold (\<lambda>some_number b. masked_assign a b some_number ii) some_bin b)
       (enumerate 0 binning) (replicate (length a) NaN)"

text \<open>
  \<open>astype(np.int)\<close> on a float array truncates towards zero; NaN and the infinities
  become the smallest 64-bit integer.
\<close>

fun astype_int :: "pyfloat \<Rightarrow> int" where
  "astype_int (Fin x) = (if 0 \<le> x then \<lfloor>x\<rfloor> else \<lceil>x\<rceil>)"
| "astype_int x = - (2 ^ 63)"

text \<open>
  \<open>np.bincount(x)\<close>: the number of occurrences of each of \<open>0, ..., max(x)\<close>; the
  empty array for an empty \<open>x\<close>, a ValueError when an element is negative.
\<close>

definition bincount :: "int list \<Rightarrow> error + nat list" where
  "bincount x =
     (if list_ex (\<lambda>v. v < 0) x then Inl ValueError
      else if x = [] then Inr []
      else Inr (map (\<lambda>k. count_list x (int k)) [0..<Suc (nat (Max (set x)))]))"

text \<open>
  \<open>np.ma.filled(x, fill_value)\<close> replaces the masked entries of a masked array. Given a
  plain array, which has none, it returns the array itself; \<open>_get_h\<close> passes it the
  product of two plain arrays.
\<close>

definition ma_filled :: "pyfloat list \<Rightarrow> pyfloat \<Rightarrow> pyfloat list" where
  "ma_filled x fill_value = x"

definition np_sum :: "pyfloat list \<Rightarrow> pyfloat" where
  "np_sum x = foldl fadd (Fin 0) x"

definition get_h :: "pyfloat list \<Rightarrow> error + pyfloat" where
  "get_h b =
     (case bincount (map astype_int (filter (\<lambda>x. \<not> isnan x) b)) of
        Inl e \<Rightarrow> Inl e
      | Inr counts \<Rightarrow>
          (let total = Fin (of_nat (sum_list counts));
               pdf = map (\<lambda>c. fdiv (Fin (of_nat c)) total) counts
           in Inr (fneg (np_sum (ma_filled (map (\<lambda>p. fmul p (log2f p)) pdf) (Fin 0))))))"

definition evaluate_binning :: "pyfloat list \<Rightarrow> int list list \<Rightarrow> error + pyfloat" where
  "evaluate_binning a binning = get_h (apply_binning a binning)"

subsection \<open>The search driver\<close>

text \<open>
  The loop of \<open>bin_sequence\<close> over the candidates. Its state is \<open>best_h\<close> and
  \<open>best_binning\<close>; the latter is \<open>None\<close> until the loop assigns it.
\<close>

fun search :: "pyfloat list \<Rightarrow> int list list list \<Rightarrow> pyfloat \<times> int list list option \<Rightarrow>
    error + (pyfloat \<times> int list list option)" where
  "search a [] st = Inr st"
| "search a (binning # rest) (best_h, best_binning) =
     (case evaluate_binning a binning of
        Inl e \<Rightarrow> Inl e
      | Inr h \<Rightarrow>
          if fgt h best_h then search a rest (h, Some binning)
          else search a rest (best_h, best_binning))"

text \<open>
  The value range, \<open>amin, amax = np.int(np.nanmin(a)), np.int(np.nanmax(a))\<close>; the
  tuple is evaluated from left to right.
\<close>

definition value_range :: "pyfloat list \<Rightarrow> error + (int \<times> int)" where
  "value_range a =
     (case nanmin a of Inl e \<Rightarrow> Inl e | Inr lo \<Rightarrow>
     (case py_int lo of Inl e \<Rightarrow> Inl e | Inr amin \<Rightarrow>
     (case nanmax a of Inl e \<Rightarrow> Inl e | Inr hi \<Rightarrow>
     (case py_int hi of Inl e \<Rightarrow> Inl e | Inr amax \<Rightarrow> Inr (amin, amax)))))"

text \<open>The assertion of \<open>bin_sequence\<close>: every element is integral or NaN.\<close>

definition integer_or_nan :: "pyfloat list \<Rightarrow> bool" where
  "integer_or_nan a = list_all (\<lambda>x. isinteger x \<or> isnan x) a"

definition bin_sequence :: "pyfloat list \<Rightarrow> int \<Rightarrow> error + pyfloat list" where
  "bin_sequence a nbins =
     (if \<not> integer_or_nan a then Inl AssertionError
      else
        (case value_range a of Inl e \<Rightarrow> Inl e | Inr (amin, amax) \<Rightarrow>
        (case generate_bins [amin..amax] nbins of Inl e \<Rightarrow> Inl e | Inr binnings \<Rightarrow>
        (case search a binnings (Fin 0, None) of Inl e \<Rightarrow> Inl e | Inr (best_h, best_binning) \<Rightarrow>
        (case best_binning of
           None \<Rightarrow> Inl UnboundLocalError
         | Some binning \<Rightarrow> Inr (apply_binning a binning))))))"

subsection \<open>The arrays in a store\<close>

text \<open>
  Arrays are objects: \<open>a\<close> and \<open>b\<close> are references, and \<open>b[a == some_number] = ii\<close>
  writes into the object \<open>b\<close> refers to. Here the store is the list of the arrays
  allocated so far and a reference is a position in it. The functions below are
  \<open>_apply_binning\<close>, \<open>_evaluate_binning\<close> and \<open>bin_sequence\<close> again, with the input
  given by reference and every array they create (\<open>np.full_like\<close>, \<open>astype\<close>) allocated
  in the store; the arrays \<open>_get_h\<close> computes with are temporaries that nothing writes.
\<close>

type_synonym heap = "pyfloat list list"

definition alloc :: "heap \<Rightarrow> pyfloat list \<Rightarrow> heap \<times> nat" where
  "alloc h arr = (h @ [arr], length h)"

text \<open>\<open>b[a == some_number] = ii\<close>, with \<open>a\<close> at \<open>pa\<close> and \<open>b\<close> at \<open>pb\<close>.\<close>

definition masked_store :: "heap \<Rightarrow> nat \<Rightarrow> nat \<Rightarrow> int \<Rightarrow> nat \<Rightarrow> heap" where
  "masked_store h pa pb some_number ii = h[pb := masked_assign (h ! pa) (h ! pb) some_number ii]"

definition apply_binning_heap :: "heap \<Rightarrow> nat \<Rightarrow> int list list \<Rightarrow> heap \<times> nat" where
  "apply_binning_heap h pa binning =
     (case alloc h (replicate (length (h ! pa)) NaN) of (h1, pb) \<Rightarrow>
        (let h2 = fold (\<lambda>(ii, some_bin) h. fold (\<lambda>some_number h. masked_store h pa pb some_number ii) some_bin h)
                    (enumerate 0 binning) h1
         in alloc h2 (h2 ! pb)))"

definition evaluate_binning_heap :: "heap \<Rightarrow> nat \<Rightarrow> int list list \<Rightarrow> heap \<times> (error + pyfloat)" where
  "evaluate_binning_heap h pa binning =
     (case apply_binning_heap h pa binning of (h1, pb) \<Rightarrow> (h1, get_h (h1 ! pb)))"

fun search_heap :: "heap \<Rightarrow> nat \<Rightarrow> int list list list \<Rightarrow> pyfloat \<times> int list list option \<Rightarrow>
    heap \<times> (error + (pyfloat \<times> int list list option))" where
  "search_heap h pa [] st = (h, Inr st)"
| "search_heap h pa (binning # rest) (best_h, best_binning) =
     (case evaluate_binning_heap h pa binning of
        (h1, Inl e) \<Rightarrow> (h1, Inl e)
      | (h1, Inr hh) \<Rightarrow>
          if fgt hh best_h then search_heap h1 pa rest (hh, Some binning)
          else search_heap h1 pa rest (best_h, best_binning))"

definition bin_sequence_heap :: "heap \<Rightarrow> nat \<Rightarrow> int \<Rightarrow> heap \<times> (error + nat)" where
  "bin_sequence_heap h pa nbins =
     (if \<not> integer_or_nan (h ! pa) then (h, Inl AssertionError)
      else
        (case value_range (h ! pa) of Inl e \<Rightarrow> (h, Inl e) | Inr (amin, amax) \<Rightarrow>
        (case generate_bins [amin..amax] nbins of Inl e \<Rightarrow> (h, Inl e) | Inr binnings \<Rightarrow>
        (case search_heap h pa binnings (Fin 0, None) of
           (h1, Inl e) \<Rightarrow> (h1, Inl e)
         | (h1, Inr (best_h, best_binning)) \<Rightarrow>
        (case best_binning of
           None \<Rightarrow> (h1, Inl UnboundLocalError)
         | Some binning \<Rightarrow> (case apply_binning_heap h1 pa binning of (h2, pb) \<Rightarrow> (h2, Inr pb)))))))"

subsection \<open>Notions used in the statements and proofs\<close>

text \<open>
  What the two loops of \<open>_apply_binning\<close> do to one element \<open>y\<close> of \<open>b\<close>, at a
  position where \<open>a\<close> holds \<open>x\<close>, for one group \<open>g = (ii, some_bin)\<close>.
\<close>

definition assign_group :: "pyfloat \<Rightarrow> nat \<times> int list \<Rightarrow> pyfloat \<Rightarrow> pyfloat" where
  "assign_group x g y =
     (if list_ex (\<lambda>n. feq x (Fin (of_int n))) (snd g) then Fin (of_nat (fst g)) else y)"

definition int_elems :: "pyfloat list \<Rightarrow> bool" where
  "int_elems xs = list_all (\<lambda>x. \<exists>n. x = Fin (of_int n)) xs"

text \<open>
  The cut positions of a partition: the positions in the concatenation at which a group
  ends and the next one starts.
\<close>

fun cuts_from :: "nat \<Rightarrow> 'a list list \<Rightarrow> nat list" where
  "cuts_from lo [] = []"
| "cuts_from lo (g # gs) =
     (if gs = [] then [] else (lo + length g) # cuts_from (lo + length g) gs)"

definition cut_positions :: "'a list list \<Rightarrow> nat list" where
  "cut_positions p = cuts_from 0 p"

text \<open>
  The Shannon entropy, in bits, of a histogram given by its counts:
  \<open>- sum (p * log2 p)\<close> with \<open>p = count / total\<close>.
\<close>

definition shannon :: "nat list \<Rightarrow> real" where
  "shannon counts =
     - sum_list (map (\<lambda>c. real c / real (sum_list counts) * log 2 (real c / real (sum_list counts)))
         counts)"

section \<open>Evaluating the model\<close>

lemmas eval_defs =
  bin_sequence_def integer_or_nan_def value_range_def isinteger_def nanmin_def nanmax_def
  generate_bins_def combinations_def split_at_def slice_def evaluate_binning_def get_h_def bincount_def
  ma_filled_def np_sum_def apply_binning_def masked_assign_def enumerate_eq_zip
  eval_nat_numeral upto_rec1

section \<open>Input validation\<close>

lemma all_nan_filter: "list_all isnan a \<Longrightarrow> filter (\<lambda>x. \<not> isnan x) a = []"
  by (induction a) auto

lemma all_nan_integer_or_nan: "list_all isnan a \<Longrightarrow> integer_or_nan a"
  by (induction a) (auto simp: integer_or_nan_def)

lemma all_nan_value_range: "list_all isnan a \<Longrightarrow> value_range a = Inl ValueError"
  by (simp add: value_range_def nanmin_def all_nan_filter)

text \<open>
  C7. If some element of the input that is not NaN is not integral, \<open>bin_sequence\<close>
  fails with the AssertionError of its first statement, whatever \<open>nbins\<close> is and
  whatever the later steps (the value range, the enumeration, the scoring) would have
  done: none of them is reached. An instance is the input \<open>[1.5, 2.0]\<close> with
  \<open>nbins = 2\<close>.
\<close>

theorem bin_sequence_non_integral:
  "list_ex (\<lambda>x. \<not> isnan x \<and> \<not> isinteger x) a \<Longrightarrow> bin_sequence a nbins = Inl AssertionError"
proof -
  assume "list_ex (\<lambda>x. \<not> isnan x \<and> \<not> isinteger x) a"
  then have "\<not> integer_or_nan a"
    by (induction a) (auto simp: integer_or_nan_def)
  then show ?thesis
    by (simp add: bin_sequence_def)
qed

theorem bin_sequence_non_integral_witness:
  "list_ex (\<lambda>x. \<not> isnan x \<and> \<not> isinteger x) [Fin (3 / 2), Fin 2] \<and>
   bin_sequence [Fin (3 / 2), Fin 2] 2 = Inl AssertionError"
proof -
  have h: "list_ex (\<lambda>x. \<not> isnan x \<and> \<not> isinteger x) [Fin (3 / 2), Fin 2]"
    by (simp add: isinteger_def)
  show ?thesis
    using h bin_sequence_non_integral [OF h, of 2] by simp
qed

text \<open>
  C8. On an input whose elements are all NaN (the empty input among them)
  \<open>bin_sequence\<close> returns no result: the range computation raises a ValueError, from
  \<open>np.nanmin\<close> on the empty array and from \<open>np.int\<close> of NaN otherwise.
\<close>

theorem bin_sequence_all_missing:
  "list_all isnan a \<Longrightarrow> bin_sequence a nbins = Inl ValueError"
  by (simp add: bin_sequence_def all_nan_integer_or_nan all_nan_value_range)

theorem bin_sequence_all_missing_witness:
  "list_all isnan [NaN, NaN, NaN] \<and> bin_sequence [NaN, NaN, NaN] 2 = Inl ValueError"
proof -
  have h: "list_all isnan [NaN, NaN, NaN]"
    by simp
  show ?thesis
    using h bin_sequence_all_missing [OF h, of 2] by simp
qed

section \<open>The binning applied elementwise\<close>

lemma length_masked_assign: "length b = length a \<Longrightarrow> length (masked_assign a b n ii) = length a"
  by (simp add: masked_assign_def)

lemma fold_masked_assign:
  "length b = length a \<Longrightarrow>
   fold (\<lambda>some_number b. masked_assign a b some_number ii) some_bin b =
   map2 (\<lambda>x y. assign_group x (ii, some_bin) y) a b"
proof (induction some_bin arbitrary: b)
  case Nil
  then show ?case
    by (simp add: assign_group_def list_eq_iff_nth_eq)
next
  case (Cons n ns)
  have len: "length (masked_assign a b n ii) = length a"
    using Cons.prems by (rule length_masked_assign)
  have "fold (\<lambda>some_number b. masked_assign a b some_number ii) (n # ns) b =
        map2 (\<lambda>x y. assign_group x (ii, ns) y) a (masked_assign a b n ii)"
    by (simp add: Cons.IH [OF len])
  also have "\<dots> = map2 (\<lambda>x y. assign_group x (ii, n # ns) y) a b"
    using Cons.prems
    by (simp add: masked_assign_def assign_group_def list_eq_iff_nth_eq)
  finally show ?case .
qed

lemma fold_groups:
  "length b = length a \<Longrightarrow>
   fold (\<lambda>(ii, some_bin) b. fold (\<lambda>some_number b. masked_assign a b some_number ii) some_bin b) gs b =
   map2 (\<lambda>x y. fold (assign_group x) gs y) a b"
proof (induction gs arbitrary: b)
  case Nil
  then show ?case
    by (simp add: list_eq_iff_nth_eq)
next
  case (Cons g gs)
  obtain ii some_bin where g: "g = (ii, some_bin)"
    by (cases g)
  have len: "length (map2 (\<lambda>x y. assign_group x (ii, some_bin) y) a b) = length a"
    using Cons.prems by simp
  have "fold (\<lambda>(ii, some_bin) b. fold (\<lambda>some_number b. masked_assign a b some_number ii) some_bin b) (g # gs) b =
        map2 (\<lambda>x y. fold (assign_group x) gs y) a (map2 (\<lambda>x y. assign_group x (ii, some_bin) y) a b)"
    using Cons.prems by (simp add: g fold_masked_assign Cons.IH [OF len])
  also have "\<dots> = map2 (\<lambda>x y. fold (assign_group x) (g # gs) y) a b"
    using Cons.prems by (simp add: g list_eq_iff_nth_eq)
  finally show ?case .
qed

lemma apply_binning_map:
  "apply_binning a binning = map (\<lambda>x. fold (assign_group x) (enumerate 0 binning) NaN) a"
  by (simp add: apply_binning_def fold_groups list_eq_iff_nth_eq)

lemma assign_group_int:
  "assign_group (Fin (of_int v)) (ii, some_bin) y = (if v \<in> set some_bin then Fin (of_nat ii) else y)"
  by (simp add: assign_group_def list_ex_iff)

lemma fold_assign_group_nan: "fold (assign_group NaN) gs y = y"
  by (induction gs arbitrary: y) (simp_all add: assign_group_def list_ex_iff)

lemma fold_assign_group_miss:
  "v \<notin> set (concat binning) \<Longrightarrow>
   fold (assign_group (Fin (of_int v))) (enumerate k binning) y = y"
  by (induction binning arbitrary: k y) (simp_all add: assign_group_int)

lemma fold_assign_group_hit:
  "v \<in> set (concat binning) \<Longrightarrow>
   \<exists>ii. k \<le> ii \<and> ii < k + length binning \<and>
     fold (assign_group (Fin (of_int v))) (enumerate k binning) y = Fin (of_nat ii)"
proof (induction binning arbitrary: k y)
  case Nil
  then show ?case by simp
next
  case (Cons g gs)
  show ?case
  proof (cases "v \<in> set (concat gs)")
    case True
    from Cons.IH [OF True, of "Suc k" "assign_group (Fin (of_int v)) (k, g) y"]
    obtain ii where "Suc k \<le> ii" "ii < Suc k + length gs"
      "fold (assign_group (Fin (of_int v))) (enumerate (Suc k) gs) (assign_group (Fin (of_int v)) (k, g) y) = Fin (of_nat ii)"
      by blast
    then show ?thesis
      by (intro exI [of _ ii]) simp
  next
    case False
    with Cons.prems have "v \<in> set g" by simp
    with False show ?thesis
      by (intro exI [of _ k]) (simp add: fold_assign_group_miss assign_group_int)
  qed
qed

section \<open>Valid inputs and the value range\<close>

lemma isinteger_Fin: "isinteger x \<Longrightarrow> \<exists>n. x = Fin (of_int n)"
  by (cases x) (auto simp: isinteger_def elim: Ints_cases)

lemma isnan_NaN: "isnan x \<Longrightarrow> x = NaN"
  by (cases x) simp_all

lemma integer_or_nan_elem:
  "integer_or_nan a \<Longrightarrow> x \<in> set a \<Longrightarrow> x = NaN \<or> (\<exists>n. x = Fin (of_int n))"
  by (auto simp: integer_or_nan_def list_all_iff dest: isinteger_Fin isnan_NaN)

lemma integer_or_nan_filter: "integer_or_nan a \<Longrightarrow> int_elems (filter (\<lambda>x. \<not> isnan x) a)"
  by (auto simp: int_elems_def list_all_iff dest: integer_or_nan_elem)

lemma fold_fmin_int:
  "int_elems xs \<Longrightarrow>
   \<exists>m. fold fmin xs (Fin (of_int n)) = Fin (of_int m) \<and> m \<le> n \<and>
     (\<forall>v. Fin (of_int v) \<in> set xs \<longrightarrow> m \<le> v)"
proof (induction xs arbitrary: n)
  case Nil
  then show ?case by simp
next
  case (Cons x xs)
  from Cons.prems obtain k where x: "x = Fin (of_int k)" and xs: "int_elems xs"
    by (auto simp: int_elems_def)
  have step: "fold fmin (x # xs) (Fin (of_int n)) = fold fmin xs (Fin (of_int (min k n)))"
    by (simp add: x of_int_min)
  from Cons.IH [OF xs, of "min k n"] obtain m where
    "fold fmin xs (Fin (of_int (min k n))) = Fin (of_int m)" "m \<le> min k n"
    "\<forall>v. Fin (of_int v) \<in> set xs \<longrightarrow> m \<le> v"
    by blast
  then show ?case
    unfolding step by (intro exI [of _ m]) (auto simp: x)
qed

lemma fold_fmax_int:
  "int_elems xs \<Longrightarrow>
   \<exists>m. fold fmax xs (Fin (of_int n)) = Fin (of_int m) \<and> n \<le> m \<and>
     (\<forall>v. Fin (of_int v) \<in> set xs \<longrightarrow> v \<le> m)"
proof (induction xs arbitrary: n)
  case Nil
  then show ?case by simp
next
  case (Cons x xs)
  from Cons.prems obtain k where x: "x = Fin (of_int k)" and xs: "int_elems xs"
    by (auto simp: int_elems_def)
  have step: "fold fmax (x # xs) (Fin (of_int n)) = fold fmax xs (Fin (of_int (max k n)))"
    by (simp add: x of_int_max)
  from Cons.IH [OF xs, of "max k n"] obtain m where
    "fold fmax xs (Fin (of_int (max k n))) = Fin (of_int m)" "max k n \<le> m"
    "\<forall>v. Fin (of_int v) \<in> set xs \<longrightarrow> v \<le> m"
    by blast
  then show ?case
    unfolding step by (intro exI [of _ m]) (auto simp: x)
qed

lemma value_range_bounds:
  assumes valid: "integer_or_nan a" and range: "value_range a = Inr (amin, amax)"
  shows "Fin (of_int v) \<in> set a \<Longrightarrow> amin \<le> v \<and> v \<le> amax"
proof -
  assume v: "Fin (of_int v) \<in> set a"
  let ?xs = "filter (\<lambda>x. \<not> isnan x) a"
  have mem: "Fin (of_int v) \<in> set ?xs"
    using v by simp
  then obtain x xs where xs: "?xs = x # xs"
    by (cases ?xs) auto
  have ints: "int_elems (x # xs)"
    using integer_or_nan_filter [OF valid] by (simp add: xs)
  then obtain n where x: "x = Fin (of_int n)" and ixs: "int_elems xs"
    by (auto simp: int_elems_def)
  from fold_fmin_int [OF ixs, of n] obtain lo where
    lo: "fold fmin xs (Fin (of_int n)) = Fin (of_int lo)" "lo \<le> n"
      "\<forall>v. Fin (of_int v) \<in> set xs \<longrightarrow> lo \<le> v"
    by blast
  from fold_fmax_int [OF ixs, of n] obtain hi where
    hi: "fold fmax xs (Fin (of_int n)) = Fin (of_int hi)" "n \<le> hi"
      "\<forall>v. Fin (of_int v) \<in> set xs \<longrightarrow> v \<le> hi"
    by blast
  have ne: "a \<noteq> []"
    using v by auto
  have "value_range a = Inr (lo, hi)"
    using ne by (simp add: value_range_def nanmin_def nanmax_def xs x lo hi)
  with range have "amin = lo" "amax = hi"
    by simp_all
  moreover have "v = n \<or> Fin (of_int v) \<in> set xs"
    using mem by (simp add: xs x)
  ultimately show ?thesis
    using lo hi by auto
qed

lemma fold_fmin_attained:
  "int_elems xs \<Longrightarrow> fold fmin xs (Fin (of_int n)) \<in> set (Fin (of_int n) # xs)"
proof (induction xs arbitrary: n)
  case Nil
  then show ?case by simp
next
  case (Cons x xs)
  from Cons.prems obtain k where x: "x = Fin (of_int k)" and xs: "int_elems xs"
    by (auto simp: int_elems_def)
  have step: "fold fmin (x # xs) (Fin (of_int n)) = fold fmin xs (Fin (of_int (min k n)))"
    by (simp add: x of_int_min)
  have "min k n = k \<or> min k n = n"
    by (simp add: min_def)
  then show ?case
    unfolding step using Cons.IH [OF xs, of "min k n"] by (auto simp: x)
qed

lemma fold_fmax_attained:
  "int_elems xs \<Longrightarrow> fold fmax xs (Fin (of_int n)) \<in> set (Fin (of_int n) # xs)"
proof (induction xs arbitrary: n)
  case Nil
  then show ?case by simp
next
  case (Cons x xs)
  from Cons.prems obtain k where x: "x = Fin (of_int k)" and xs: "int_elems xs"
    by (auto simp: int_elems_def)
  have step: "fold fmax (x # xs) (Fin (of_int n)) = fold fmax xs (Fin (of_int (max k n)))"
    by (simp add: x of_int_max)
  have "max k n = k \<or> max k n = n"
    by (simp add: max_def)
  then show ?case
    unfolding step using Cons.IH [OF xs, of "max k n"] by (auto simp: x)
qed

lemma value_range_attained:
  assumes valid: "integer_or_nan a" and some: "\<exists>x\<in>set a. \<not> isnan x"
  shows "\<exists>amin amax. value_range a = Inr (amin, amax) \<and>
           Fin (of_int amin) \<in> set a \<and> Fin (of_int amax) \<in> set a"
proof -
  let ?xs = "filter (\<lambda>x. \<not> isnan x) a"
  from some obtain x xs where xs: "?xs = x # xs"
    by (cases ?xs) (auto simp: filter_empty_conv)
  have sub: "set (x # xs) \<subseteq> set a"
    using xs [symmetric] by auto
  have "int_elems (x # xs)"
    using integer_or_nan_filter [OF valid] by (simp add: xs)
  then obtain n where x: "x = Fin (of_int n)" and ixs: "int_elems xs"
    by (auto simp: int_elems_def)
  from fold_fmin_int [OF ixs, of n] obtain lo where lo: "fold fmin xs (Fin (of_int n)) = Fin (of_int lo)"
    by blast
  from fold_fmax_int [OF ixs, of n] obtain hi where hi: "fold fmax xs (Fin (of_int n)) = Fin (of_int hi)"
    by blast
  have "a \<noteq> []"
    using some by auto
  then have "value_range a = Inr (lo, hi)"
    by (simp add: value_range_def nanmin_def nanmax_def xs x lo hi)
  moreover have "Fin (of_int lo) \<in> set a"
    using fold_fmin_attained [OF ixs, of n] sub by (auto simp: lo x)
  moreover have "Fin (of_int hi) \<in> set a"
    using fold_fmax_attained [OF ixs, of n] sub by (auto simp: hi x)
  ultimately show ?thesis
    by blast
qed

section \<open>The combinations\<close>

lemma combs_length: "ys \<in> set (combs pool k) \<Longrightarrow> length ys = k"
  by (induction pool k arbitrary: ys rule: combs.induct) auto

lemma combs_set: "ys \<in> set (combs pool k) \<Longrightarrow> set ys \<subseteq> set pool"
  by (induction pool k arbitrary: ys rule: combs.induct) fastforce+

lemma combs_sorted:
  "sorted_wrt (<) pool \<Longrightarrow> ys \<in> set (combs pool k) \<Longrightarrow> sorted_wrt (<) ys"
proof (induction pool k arbitrary: ys rule: combs.induct)
  case (3 x xs r)
  from "3.prems" have xs: "sorted_wrt (<) xs" and x: "\<forall>y\<in>set xs. x < y"
    by simp_all
  from "3.prems" consider zs where "ys = x # zs" "zs \<in> set (combs xs r)"
    | "ys \<in> set (combs xs (Suc r))"
    by auto
  then show ?case
  proof cases
    case 1
    then show ?thesis
      using "3.IH"(1) [OF xs] x combs_set [of zs xs r] by auto
  next
    case 2
    then show ?thesis
      using "3.IH"(2) [OF xs] by simp
  qed
qed simp_all

lemma length_combs: "length (combs pool k) = length pool choose k"
  by (induction pool k rule: combs.induct) simp_all

lemma combs_too_many: "length pool < k \<Longrightarrow> combs pool k = []"
  using length_combs [of pool k] by (simp add: binomial_eq_0)

lemma combs_lex_sorted:
  fixes pool :: "'a::linorder list"
  shows "sorted_wrt (<) pool \<Longrightarrow> sorted_wrt (<) (combs pool k)"
proof (induction pool k rule: combs.induct)
  case (3 x xs r)
  from "3.prems" have xs: "sorted_wrt (<) xs" and x: "\<forall>y\<in>set xs. x < y"
    by simp_all
  have left: "sorted_wrt (<) (map ((#) x) (combs xs r))"
    using "3.IH"(1) [OF xs] by (simp add: sorted_wrt_map)
  have right: "sorted_wrt (<) (combs xs (Suc r))"
    using "3.IH"(2) [OF xs] .
  have cross: "x # ys < zs" if "ys \<in> set (combs xs r)" "zs \<in> set (combs xs (Suc r))" for ys zs
  proof -
    from that(2) have "length zs = Suc r" "set zs \<subseteq> set xs"
      by (simp_all add: combs_length combs_set)
    then obtain z zs' where "zs = z # zs'" "z \<in> set xs"
      by (cases zs) auto
    with x show ?thesis by simp
  qed
  show ?case
    using left right cross by (auto simp: sorted_wrt_append)
qed simp_all

section \<open>Slices\<close>

lemma drop_take_append:
  "lo \<le> i \<Longrightarrow> drop lo (take i t) @ drop i t = drop lo t"
proof (cases "i \<le> length t")
  case True
  assume "lo \<le> i"
  with True have "drop lo (take i t @ drop i t) = drop lo (take i t) @ drop i t"
    by (simp only: drop_append length_take min_absorb2 diff_is_0_eq' drop_0)
  then show ?thesis by simp
next
  case False
  then show ?thesis by simp
qed

lemma slice_append:
  "lo \<le> i \<Longrightarrow> i \<le> n \<Longrightarrow> slice base lo i @ slice base i n = slice base lo n"
proof -
  assume a: "lo \<le> i" "i \<le> n"
  have "take i base = take i (take n base)"
    using a by (simp add: min_def)
  then show ?thesis
    using drop_take_append [OF a(1), of "take n base"] by (simp add: slice_def)
qed

lemma concat_slices:
  "sorted (lo # ixs @ [n]) \<Longrightarrow>
   concat (map2 (slice base) (lo # ixs) (ixs @ [n])) = slice base lo n"
proof (induction ixs arbitrary: lo)
  case Nil
  then show ?case by simp
next
  case (Cons i ixs)
  from Cons.prems have "lo \<le> i" "i \<le> n" "sorted (i # ixs @ [n])"
    by auto
  then show ?case
    using Cons.IH [of i] by (simp add: slice_append)
qed

lemma length_slices: "length (map2 (slice base) (lo # ixs) (ixs @ [n])) = Suc (length ixs)"
  by simp

lemma slices_nonempty:
  "sorted_wrt (<) (lo # ixs @ [n]) \<Longrightarrow> n \<le> length base \<Longrightarrow>
   [] \<notin> set (map2 (slice base) (lo # ixs) (ixs @ [n]))"
proof (induction ixs arbitrary: lo)
  case Nil
  then show ?case by (simp add: slice_def)
next
  case (Cons i ixs)
  from Cons.prems have "lo < i" "i < n" "sorted_wrt (<) (i # ixs @ [n])"
    by auto
  then show ?case
    using Cons.IH [of i] Cons.prems(2) by (simp add: slice_def)
qed

section \<open>The search loop\<close>

lemma search_best:
  "search a binnings (h0, bb0) = Inr (h, bb) \<Longrightarrow>
   bb = bb0 \<or> (\<exists>binning\<in>set binnings. bb = Some binning)"
  by (induction binnings arbitrary: h0 bb0) (auto split: sum.splits if_splits)

section \<open>The generated partitions\<close>

lemma generate_bins_Inr:
  "1 \<le> nbins \<Longrightarrow>
   generate_bins seq nbins = Inr (map (split_at seq) (combs [1..<length seq] (nat (nbins - 1))))"
  by (simp add: generate_bins_def combinations_def Let_def)

lemma generate_bins_Inl: "nbins < 1 \<Longrightarrow> generate_bins seq nbins = Inl ValueError"
  by (simp add: generate_bins_def combinations_def)

lemma cuts_slices:
  "sorted (lo # ixs @ [n]) \<Longrightarrow> n \<le> length base \<Longrightarrow>
   cuts_from lo (map2 (slice base) (lo # ixs) (ixs @ [n])) = ixs"
proof (induction ixs arbitrary: lo)
  case Nil
  then show ?case by simp
next
  case (Cons i ixs)
  from Cons.prems have le: "lo \<le> i" "i \<le> n" and rest: "sorted (i # ixs @ [n])"
    by auto
  have "length (slice base lo i) = i - lo"
    using le Cons.prems(2) by (simp add: slice_def)
  then show ?case
    using Cons.IH [OF rest Cons.prems(2)] le by simp
qed

lemma cuts_in_range:
  assumes "ixs \<in> set (combs [1..<n] k)" and "0 < n"
  shows "sorted_wrt (<) (0 # ixs @ [n])"
proof -
  have "sorted_wrt (<) ixs"
    using combs_sorted [OF _ assms(1)] by simp
  moreover have "set ixs \<subseteq> {1..<n}"
    using combs_set [OF assms(1)] by simp
  ultimately show ?thesis
    using assms(2) by (auto simp: sorted_wrt_append)
qed

lemma increasing_imp_sorted: "sorted_wrt (<) (xs :: nat list) \<Longrightarrow> sorted xs"
  by (simp add: strict_sorted_imp_sorted)

lemma split_at_props:
  assumes "ixs \<in> set (combs [1..<length base] k)" and "base \<noteq> []"
  shows "length (split_at base ixs) = Suc k"
    and "[] \<notin> set (split_at base ixs)"
    and "concat (split_at base ixs) = base"
    and "cut_positions (split_at base ixs) = ixs"
proof -
  have pos: "0 < length base"
    using assms(2) by simp
  have strict: "sorted_wrt (<) (0 # ixs @ [length base])"
    using cuts_in_range [OF assms(1) pos] .
  then have weak: "sorted (0 # ixs @ [length base])"
    by (rule increasing_imp_sorted)
  show "length (split_at base ixs) = Suc k"
    using combs_length [OF assms(1)] by (simp add: split_at_def)
  show "[] \<notin> set (split_at base ixs)"
    unfolding split_at_def using strict by (rule slices_nonempty) simp
  show "concat (split_at base ixs) = base"
  proof -
    have "slice base 0 (length base) = base"
      by (simp add: slice_def)
    then show ?thesis
      unfolding split_at_def using concat_slices [OF weak, of base] by simp
  qed
  show "cut_positions (split_at base ixs) = ixs"
    unfolding split_at_def cut_positions_def using weak by (rule cuts_slices) simp
qed

text \<open>
  C3. For a sequence of \<open>L\<close> elements (the range of \<open>L\<close> consecutive integers in
  \<open>bin_sequence\<close>) and \<open>1 \<le> nbins \<le> L\<close>, the generator does not raise and yields
  exactly \<open>C(L - 1, nbins - 1)\<close> partitions, all different. Each has \<open>nbins\<close>
  groups, none of them empty, whose concatenation in order is the sequence, so that each
  group is a contiguous run of it. The partitions come in the lexicographic order of their
  cut positions, each of which is an increasing tuple.
\<close>

theorem generate_bins_partitions:
  assumes "1 \<le> nbins" and "nbins \<le> int (length seq)"
  shows "\<exists>ps. generate_bins seq nbins = Inr ps \<and>
           length ps = (length seq - 1) choose (nat nbins - 1) \<and>
           distinct ps \<and>
           list_all (\<lambda>p. length p = nat nbins \<and> [] \<notin> set p \<and> concat p = seq \<and>
                      sorted_wrt (<) (cut_positions p)) ps \<and>
           sorted_wrt (<) (map cut_positions ps)"
proof -
  let ?k = "nat (nbins - 1)"
  let ?cs = "combs [1..<length seq] ?k"
  let ?ps = "map (split_at seq) ?cs"
  have ne: "seq \<noteq> []"
    using assms by auto
  have k: "Suc ?k = nat nbins" "?k = nat nbins - 1"
    using assms(1) by simp_all
  have cuts: "map cut_positions ?ps = ?cs"
    by (simp add: map_idI split_at_props(4) [OF _ ne])
  have lex: "sorted_wrt (<) ?cs"
    by (rule combs_lex_sorted) simp
  have "generate_bins seq nbins = Inr ?ps"
    using assms(1) by (rule generate_bins_Inr)
  moreover have "length ?ps = (length seq - 1) choose (nat nbins - 1)"
    by (simp add: length_combs k)
  moreover have "distinct (map cut_positions ?ps)"
    unfolding cuts using lex by (simp add: strict_sorted_iff)
  then have "distinct ?ps"
    using distinct_map [of cut_positions ?ps] by blast
  moreover have "list_all (\<lambda>p. length p = nat nbins \<and> [] \<notin> set p \<and> concat p = seq \<and>
                      sorted_wrt (<) (cut_positions p)) ?ps"
    using split_at_props [OF _ ne, of _ ?k] k(1) combs_sorted [of "[1..<length seq]" _ ?k]
    by (auto simp: list_all_iff)
  moreover have "sorted_wrt (<) (map cut_positions ?ps)"
    unfolding cuts using lex .
  ultimately show ?thesis
    by blast
qed

theorem generate_bins_partitions_witness:
  "1 \<le> (2::int) \<and> 2 \<le> int (length [0..2]) \<and>
   (\<exists>ps. generate_bins [0..2] 2 = Inr ps \<and>
      length ps = (length [0..2] - 1) choose (nat 2 - 1) \<and>
      distinct ps \<and>
      list_all (\<lambda>p. length p = nat 2 \<and> [] \<notin> set p \<and> concat p = [0..2] \<and>
                 sorted_wrt (<) (cut_positions p)) ps \<and>
      sorted_wrt (<) (map cut_positions ps))"
proof -
  have h1: "1 \<le> (2::int)"
    by simp
  have h2: "2 \<le> int (length [0..2])"
    by simp
  show ?thesis
    using h1 h2 generate_bins_partitions [OF h1 h2] by blast
qed

section \<open>The result of the search driver\<close>

lemma value_range_elem:
  assumes valid: "integer_or_nan a" and range: "value_range a = Inr (amin, amax)"
  shows "\<exists>v. Fin (of_int v) \<in> set a"
proof (cases "filter (\<lambda>x. \<not> isnan x) a")
  case Nil
  then have "value_range a = Inl ValueError"
    by (simp add: value_range_def nanmin_def)
  with range show ?thesis by simp
next
  case (Cons x xs)
  then have "x \<in> set (filter (\<lambda>x. \<not> isnan x) a)"
    by simp
  then have "x \<in> set a" "\<not> isnan x"
    by simp_all
  with integer_or_nan_elem [OF valid] show ?thesis
    by force
qed

lemma value_range_le:
  assumes "integer_or_nan a" and "value_range a = Inr (amin, amax)"
  shows "amin \<le> amax"
  using value_range_elem [OF assms] value_range_bounds [OF assms] by force

lemma generate_bins_members:
  assumes "generate_bins seq nbins = Inr binnings" and "seq \<noteq> []" and "binning \<in> set binnings"
  shows "1 \<le> nbins \<and> length binning = nat nbins \<and> concat binning = seq"
proof -
  have nb: "1 \<le> nbins"
    using assms(1) generate_bins_Inl [of nbins seq] by (cases "1 \<le> nbins") simp_all
  with assms(1) have "binnings = map (split_at seq) (combs [1..<length seq] (nat (nbins - 1)))"
    by (simp add: generate_bins_Inr)
  with assms(3) obtain ixs where "ixs \<in> set (combs [1..<length seq] (nat (nbins - 1)))"
    "binning = split_at seq ixs"
    by auto
  then show ?thesis
    using split_at_props [OF _ assms(2), of ixs "nat (nbins - 1)"] nb by simp
qed

text \<open>
  C5. When \<open>bin_sequence\<close> returns a sequence, it has the length of the input; where
  the input is NaN the output is NaN, and where the input is not NaN the output is a
  group index \<open>k\<close> with \<open>0 \<le> k < nbins\<close>.
\<close>

theorem bin_sequence_shape:
  assumes "bin_sequence a nbins = Inr b"
  shows "length b = length a \<and>
         list_all2 (\<lambda>x y. if isnan x then isnan y
                           else \<exists>k. y = Fin (of_nat k) \<and> int k < nbins) a b"
proof -
  from assms have valid: "integer_or_nan a"
    by (simp add: bin_sequence_def split: if_splits)
  with assms obtain amin amax binnings best_h binning where
    range: "value_range a = Inr (amin, amax)" and
    gen: "generate_bins [amin..amax] nbins = Inr binnings" and
    best: "search a binnings (Fin 0, None) = Inr (best_h, Some binning)" and
    b: "b = apply_binning a binning"
    by (auto simp: bin_sequence_def split: sum.splits option.splits)
  have le: "amin \<le> amax"
    using valid range by (rule value_range_le)
  then have ne: "[amin..amax] \<noteq> []"
    by simp
  have "binning \<in> set binnings"
    using search_best [OF best] by auto
  with gen ne have nb: "1 \<le> nbins" and len: "length binning = nat nbins"
    and cover: "concat binning = [amin..amax]"
    using generate_bins_members by blast+
  have elem: "if isnan x then isnan (fold (assign_group x) (enumerate 0 binning) NaN)
      else \<exists>k. fold (assign_group x) (enumerate 0 binning) NaN = Fin (of_nat k) \<and> int k < nbins"
    if x: "x \<in> set a" for x
  proof (cases "isnan x")
    case True
    then have "x = NaN"
      by (rule isnan_NaN)
    then show ?thesis
      by (simp add: fold_assign_group_nan)
  next
    case False
    with integer_or_nan_elem [OF valid x] obtain v where v: "x = Fin (of_int v)"
      by auto
    with x value_range_bounds [OF valid range] have "v \<in> set (concat binning)"
      by (simp add: cover)
    from fold_assign_group_hit [OF this, of 0 NaN] obtain ii where
      "ii < length binning" "fold (assign_group x) (enumerate 0 binning) NaN = Fin (of_nat ii)"
      by (auto simp: v)
    with False len nb show ?thesis
      by auto
  qed
  show ?thesis
    unfolding b apply_binning_map using elem by (simp add: list_all2_conv_all_nth)
qed

lemma bin_sequence_two_values: "bin_sequence [Fin 0, NaN, Fin 1] 2 = Inr [Fin 0, NaN, Fin 1]"
  by (simp add: eval_defs)

theorem bin_sequence_shape_witness:
  "bin_sequence [Fin 0, NaN, Fin 1] 2 = Inr [Fin 0, NaN, Fin 1] \<and>
   length [Fin 0, NaN, Fin 1] = length [Fin 0, NaN, Fin 1] \<and>
   list_all2 (\<lambda>x y. if isnan x then isnan y else \<exists>k. y = Fin (of_nat k) \<and> int k < 2)
     [Fin 0, NaN, Fin 1] [Fin 0, NaN, Fin 1]"
  using bin_sequence_two_values bin_sequence_shape [OF bin_sequence_two_values] by blast

section \<open>The entropy of a histogram\<close>

lemma foldl_fadd_Fin: "foldl fadd (Fin s) (map Fin xs) = Fin (s + sum_list xs)"
  by (induction xs arbitrary: s) (simp_all add: add.assoc)

lemma np_sum_Fin: "np_sum (map Fin xs) = Fin (sum_list xs)"
  by (simp add: np_sum_def foldl_fadd_Fin)

lemma plogp_Fin:
  assumes "0 < c" and "0 < n"
  shows "fmul (fdiv (Fin (real c)) (Fin (real n))) (log2f (fdiv (Fin (real c)) (Fin (real n)))) =
         Fin (real c / real n * log 2 (real c / real n))"
proof -
  have p: "0 < real c / real n"
    using assms by simp
  have "fdiv (Fin (real c)) (Fin (real n)) = Fin (real c / real n)"
    using assms by simp
  moreover have "log2f (Fin (real c / real n)) = Fin (log 2 (real c / real n))"
    using assms by (simp add: divide_less_0_iff)
  ultimately show ?thesis
    by simp
qed

lemma occupied_pos: "c \<in> set counts \<Longrightarrow> 0 \<notin> set counts \<Longrightarrow> 0 < (c::nat)"
  by (rule ccontr) simp

lemma sum_list_pos: "counts \<noteq> [] \<Longrightarrow> 0 \<notin> set counts \<Longrightarrow> 0 < sum_list (counts :: nat list)"
  by (cases counts) auto

lemma get_h_occupied:
  assumes counts: "bincount (map astype_int (filter (\<lambda>x. \<not> isnan x) b)) = Inr counts"
    and occupied: "0 \<notin> set counts"
  shows "get_h b = Inr (Fin (shannon counts))"
proof (cases "counts = []")
  case True
  then show ?thesis
    using counts by (simp add: get_h_def ma_filled_def np_sum_def shannon_def)
next
  case False
  let ?n = "sum_list counts"
  have n: "0 < ?n"
    using False occupied by (rule sum_list_pos)
  have plogp: "fmul (fdiv (Fin (real c)) (Fin (real ?n))) (log2f (fdiv (Fin (real c)) (Fin (real ?n)))) =
        Fin (real c / real ?n * log 2 (real c / real ?n))" if "c \<in> set counts" for c
  proof -
    from that occupied have "0 < c"
      by (rule occupied_pos)
    then show ?thesis
      using n by (rule plogp_Fin)
  qed
  have "map (\<lambda>p. fmul p (log2f p)) (map (\<lambda>c. fdiv (Fin (real c)) (Fin (real ?n))) counts) =
        map (\<lambda>c. fmul (fdiv (Fin (real c)) (Fin (real ?n))) (log2f (fdiv (Fin (real c)) (Fin (real ?n))))) counts"
    by (simp only: map_map comp_def)
  also have "\<dots> = map (\<lambda>c. Fin (real c / real ?n * log 2 (real c / real ?n))) counts"
    using plogp by (rule map_cong [OF refl])
  also have "\<dots> = map Fin (map (\<lambda>c. real c / real ?n * log 2 (real c / real ?n)) counts)"
    by (simp only: map_map comp_def)
  finally have terms: "map (\<lambda>p. fmul p (log2f p)) (map (\<lambda>c. fdiv (Fin (real c)) (Fin (real ?n))) counts) =
        map Fin (map (\<lambda>c. real c / real ?n * log 2 (real c / real ?n)) counts)" .
  have "get_h b = Inr (fneg (np_sum (map (\<lambda>p. fmul p (log2f p))
          (map (\<lambda>c. fdiv (Fin (real c)) (Fin (real ?n))) counts))))"
    by (simp only: get_h_def counts sum.case Let_def ma_filled_def)
  also have "\<dots> = Inr (Fin (shannon counts))"
    by (simp only: terms np_sum_Fin fneg.simps shannon_def)
  finally show ?thesis .
qed

lemma shannon_term_nonpos:
  assumes "0 < c" and "c \<le> n"
  shows "real c / real n * log 2 (real c / real n) \<le> 0"
proof -
  have "0 < real c / real n" "real c / real n \<le> 1"
    using assms by simp_all
  then have "log 2 (real c / real n) \<le> 0"
    by simp
  with \<open>0 < real c / real n\<close> show ?thesis
    by (intro mult_nonneg_nonpos) simp_all
qed

lemma shannon_term_neg:
  assumes "0 < c" and "c < n"
  shows "real c / real n * log 2 (real c / real n) < 0"
proof -
  have "0 < real c / real n" "real c / real n < 1"
    using assms by simp_all
  then have "log 2 (real c / real n) < 0"
    by simp
  with \<open>0 < real c / real n\<close> show ?thesis
    by (intro mult_pos_neg)
qed

lemma elem_le_sum_list: "c \<in> set counts \<Longrightarrow> c \<le> sum_list (counts :: nat list)"
  by (induction counts) auto

lemma sum_list_nonpos: "(\<And>x. x \<in> set xs \<Longrightarrow> f x \<le> (0::real)) \<Longrightarrow> sum_list (map f xs) \<le> 0"
  by (induction xs) (auto intro: add_nonpos_nonpos)

lemma sum_list_neg:
  "xs \<noteq> [] \<Longrightarrow> (\<And>x. x \<in> set xs \<Longrightarrow> f x < (0::real)) \<Longrightarrow> sum_list (map f xs) < 0"
proof (induction xs)
  case Nil
  then show ?case by simp
next
  case (Cons x xs)
  have "f x < 0"
    using Cons.prems(2) by simp
  moreover have "sum_list (map f xs) \<le> 0"
    using Cons.prems(2) by (intro sum_list_nonpos) (simp add: less_imp_le)
  ultimately show ?case by simp
qed

lemma shannon_nonneg: "0 \<notin> set counts \<Longrightarrow> 0 \<le> shannon counts"
proof -
  assume occupied: "0 \<notin> set counts"
  have "sum_list (map (\<lambda>c. real c / real (sum_list counts) * log 2 (real c / real (sum_list counts))) counts) \<le> 0"
  proof (rule sum_list_nonpos)
    fix c assume c: "c \<in> set counts"
    from c occupied have "0 < c" by (rule occupied_pos)
    then show "real c / real (sum_list counts) * log 2 (real c / real (sum_list counts)) \<le> 0"
      using elem_le_sum_list [OF c] by (rule shannon_term_nonpos)
  qed
  then show ?thesis
    by (simp add: shannon_def)
qed

lemma elem_less_sum_list:
  "c \<in> set counts \<Longrightarrow> 0 \<notin> set counts \<Longrightarrow> 2 \<le> length counts \<Longrightarrow> c < sum_list (counts :: nat list)"
proof (induction counts)
  case Nil
  then show ?case by simp
next
  case (Cons x xs)
  have xs: "xs \<noteq> []" "0 \<notin> set xs" "0 < x"
    using Cons.prems by auto
  then have pos: "0 < sum_list xs"
    by (simp add: sum_list_pos)
  show ?case
  proof (cases "c \<in> set xs")
    case True
    then have "c \<le> sum_list xs" by (rule elem_le_sum_list)
    with xs show ?thesis by simp
  next
    case False
    with Cons.prems(1) have "c = x" by simp
    with pos show ?thesis by simp
  qed
qed

lemma shannon_pos: "0 \<notin> set counts \<Longrightarrow> 2 \<le> length counts \<Longrightarrow> 0 < shannon counts"
proof -
  assume occupied: "0 \<notin> set counts" and two: "2 \<le> length counts"
  have "sum_list (map (\<lambda>c. real c / real (sum_list counts) * log 2 (real c / real (sum_list counts))) counts) < 0"
  proof (rule sum_list_neg)
    show "counts \<noteq> []" using two by auto
  next
    fix c assume c: "c \<in> set counts"
    from c occupied have "0 < c" by (rule occupied_pos)
    then show "real c / real (sum_list counts) * log 2 (real c / real (sum_list counts)) < 0"
      using elem_less_sum_list [OF c occupied two] by (rule shannon_term_neg)
  qed
  then show ?thesis
    by (simp add: shannon_def)
qed

lemma ln_ge_one_minus_inverse: "0 < x \<Longrightarrow> 1 - 1 / x \<le> ln (x::real)"
proof -
  assume x: "0 < x"
  then have "ln (1 / x) \<le> 1 / x - 1"
    by (intro ln_le_minus_one) simp
  moreover have "ln (1 / x) = - ln x"
    using x by (simp add: ln_div)
  ultimately show ?thesis
    by simp
qed

lemma plogp_lower:
  assumes p: "0 < p" and k: "0 < k"
  shows "(p - 1 / k) / ln 2 - p * log 2 k \<le> p * log 2 (p::real)"
proof -
  have "1 - 1 / (k * p) \<le> ln (k * p)"
    using p k by (intro ln_ge_one_minus_inverse) simp
  then have "p * (1 - 1 / (k * p)) \<le> p * ln (k * p)"
    using p by (intro mult_left_mono) simp_all
  moreover have "p * (1 - 1 / (k * p)) = p - 1 / k"
    using p k by (simp add: field_simps)
  ultimately have "p - 1 / k \<le> p * ln (k * p)"
    by simp
  then have "(p - 1 / k) / ln 2 \<le> p * ln (k * p) / ln 2"
    by (intro divide_right_mono) simp_all
  also have "p * ln (k * p) / ln 2 = p * log 2 (k * p)"
    by (simp add: log_def)
  also have "log 2 (k * p) = log 2 k + log 2 p"
    using p k by (simp add: log_mult_pos)
  finally show ?thesis
    by (simp add: algebra_simps)
qed

lemma sum_list_divide: "sum_list (map (\<lambda>c. real c / d) cs) = real (sum_list cs) / d"
  by (induction cs) (simp_all add: add_divide_distrib)

lemma sum_list_affine:
  "sum_list (map (\<lambda>c. (f c - b) / l - f c * a) cs) =
   (sum_list (map f cs) - real (length cs) * b) / l - sum_list (map f cs) * (a::real)"
  by (induction cs) (simp_all add: algebra_simps diff_divide_distrib add_divide_distrib)

lemma shannon_le:
  assumes occupied: "0 \<notin> set counts" and ne: "counts \<noteq> []"
  shows "shannon counts \<le> log 2 (real (length counts))"
proof -
  let ?n = "real (sum_list counts)"
  let ?k = "real (length counts)"
  let ?p = "\<lambda>c. real c / ?n"
  have "0 < sum_list counts"
    using ne occupied by (rule sum_list_pos)
  then have n: "0 < ?n"
    by (simp only: of_nat_0_less_iff)
  have k: "0 < ?k"
    using ne by simp
  have nz: "?n \<noteq> 0"
    using n by linarith
  have total: "sum_list (map ?p counts) = 1"
    by (simp only: sum_list_divide divide_self [OF nz])
  have "sum_list (map (\<lambda>c. (?p c - 1 / ?k) / ln 2 - ?p c * log 2 ?k) counts) \<le>
        sum_list (map (\<lambda>c. ?p c * log 2 (?p c)) counts)"
  proof (rule sum_list_mono)
    fix c assume "c \<in> set counts"
    then have "0 < c"
      using occupied by (rule occupied_pos)
    then have "0 < ?p c"
      using n by simp
    then show "(?p c - 1 / ?k) / ln 2 - ?p c * log 2 ?k \<le> ?p c * log 2 (?p c)"
      using k by (rule plogp_lower)
  qed
  moreover have "sum_list (map (\<lambda>c. (?p c - 1 / ?k) / ln 2 - ?p c * log 2 ?k) counts) = - log 2 ?k"
    using k by (simp only: sum_list_affine total) simp
  ultimately show ?thesis
    by (simp add: shannon_def)
qed

lemma fold_assign_group_cases:
  "fold (assign_group x) (enumerate k gs) y = y \<or>
   (\<exists>ii. k \<le> ii \<and> ii < k + length gs \<and> fold (assign_group x) (enumerate k gs) y = Fin (of_nat ii))"
proof (induction gs arbitrary: k y)
  case Nil
  then show ?case by simp
next
  case (Cons g gs)
  let ?y = "assign_group x (k, g) y"
  have first: "?y = y \<or> ?y = Fin (of_nat k)"
    by (simp add: assign_group_def)
  from Cons.IH [of "Suc k" ?y] show ?case
  proof
    assume "fold (assign_group x) (enumerate (Suc k) gs) ?y = ?y"
    with first show ?thesis
      by (auto intro: exI [of _ k])
  next
    assume "\<exists>ii\<ge>Suc k. ii < Suc k + length gs \<and>
      fold (assign_group x) (enumerate (Suc k) gs) ?y = Fin (of_nat ii)"
    then obtain ii where "Suc k \<le> ii" "ii < Suc k + length gs"
      "fold (assign_group x) (enumerate (Suc k) gs) ?y = Fin (of_nat ii)"
      by blast
    then show ?thesis
      by (intro disjI2 exI [of _ ii]) simp
  qed
qed

lemma apply_binning_elem:
  assumes "y \<in> set (apply_binning a binning)"
  shows "y = NaN \<or> (\<exists>ii < length binning. y = Fin (of_nat ii))"
proof -
  from assms obtain x where "y = fold (assign_group x) (enumerate 0 binning) NaN"
    by (auto simp: apply_binning_map)
  then show ?thesis
    using fold_assign_group_cases [of x 0 binning NaN] by auto
qed

lemma labels_of_nat:
  assumes "\<forall>y\<in>set b. y = NaN \<or> (\<exists>ii < n. y = Fin (of_nat ii))"
  shows "\<forall>l\<in>set (map astype_int (filter (\<lambda>x. \<not> isnan x) b)). 0 \<le> l \<and> l < int n"
proof
  fix l assume "l \<in> set (map astype_int (filter (\<lambda>x. \<not> isnan x) b))"
  then obtain y where y: "y \<in> set b" "\<not> isnan y" "l = astype_int y"
    by auto
  with assms obtain ii where "ii < n" "y = Fin (of_nat ii)"
    by force
  with y show "0 \<le> l \<and> l < int n"
    by simp
qed

lemma bincount_Inr:
  assumes "\<forall>l\<in>set ls. 0 \<le> l \<and> l < int n"
  shows "\<exists>counts. bincount ls = Inr counts \<and> length counts \<le> n"
proof (cases "ls = []")
  case True
  then show ?thesis by (simp add: bincount_def)
next
  case False
  then have "Max (set ls) \<in> set ls"
    by (intro Max_in) simp_all
  with assms have "0 \<le> Max (set ls)" "Max (set ls) < int n"
    by auto
  then have "Suc (nat (Max (set ls))) \<le> n"
    by linarith
  moreover have "\<not> list_ex (\<lambda>v. v < 0) ls"
    using assms by (auto simp: list_ex_iff)
  ultimately show ?thesis
    using False by (simp add: bincount_def)
qed

text \<open>
  The evaluator never raises. Where no count of the histogram is 0 it returns the Shannon
  entropy of the histogram, which lies between 0 and \<open>log2\<close> of the number of groups.
\<close>

lemma evaluate_binning_occupied:
  "\<exists>counts. bincount (map astype_int (filter (\<lambda>x. \<not> isnan x) (apply_binning a binning))) = Inr counts \<and>
     length counts \<le> length binning \<and>
     (0 \<notin> set counts \<longrightarrow>
        evaluate_binning a binning = Inr (Fin (shannon counts)) \<and> 0 \<le> shannon counts \<and>
        (counts \<noteq> [] \<longrightarrow> shannon counts \<le> log 2 (real (length binning))))"
proof -
  let ?ls = "map astype_int (filter (\<lambda>x. \<not> isnan x) (apply_binning a binning))"
  have "\<forall>l\<in>set ?ls. 0 \<le> l \<and> l < int (length binning)"
    using apply_binning_elem [of _ a binning] by (intro labels_of_nat) blast
  then obtain counts where counts: "bincount ?ls = Inr counts" "length counts \<le> length binning"
    using bincount_Inr by blast
  have "shannon counts \<le> log 2 (real (length binning))" if "0 \<notin> set counts" "counts \<noteq> []"
  proof -
    have "shannon counts \<le> log 2 (real (length counts))"
      using that by (rule shannon_le)
    also have "\<dots> \<le> log 2 (real (length binning))"
    proof -
      have "0 < length counts"
        using that(2) by simp
      moreover from this have "0 < length binning"
        using counts(2) by linarith
      ultimately have "0 < real (length counts)" "0 < real (length binning)"
        "real (length counts) \<le> real (length binning)"
        using counts(2) by (simp_all only: of_nat_0_less_iff of_nat_le_iff)
      then show ?thesis
        by simp
    qed
    finally show ?thesis .
  qed
  then show ?thesis
    using counts get_h_occupied [OF counts(1)] shannon_nonneg [of counts]
    by (auto simp: evaluate_binning_def)
qed

lemma evaluate_binning_total: "\<exists>h. evaluate_binning a binning = Inr h"
proof -
  obtain counts where
    "bincount (map astype_int (filter (\<lambda>x. \<not> isnan x) (apply_binning a binning))) = Inr counts"
    using evaluate_binning_occupied [of a binning] by blast
  then show ?thesis
    by (simp add: evaluate_binning_def get_h_def Let_def)
qed

section \<open>Binning a binned sequence again\<close>

lemma combs_all: "combs xs (length xs) = [xs]"
  by (induction xs) (simp_all add: combs_too_many)

lemma slice_single: "i < length base \<Longrightarrow> slice base i (Suc i) = [base ! i]"
proof -
  assume i: "i < length base"
  have "slice base i (Suc i) = take 1 (drop i base)"
    by (simp add: slice_def drop_take)
  also have "drop i base = base ! i # drop (Suc i) base"
    using i by (rule Cons_nth_drop_Suc [symmetric])
  finally show ?thesis
    by simp
qed

lemma split_at_singletons:
  assumes "base \<noteq> []"
  shows "split_at base [1..<length base] = map (\<lambda>v. [v]) base"
proof -
  let ?n = "length base"
  have n: "0 < ?n"
    using assms by simp
  have lo: "0 # [1..<?n] = [0..<?n]"
    using n by (simp add: upt_conv_Cons)
  have "Suc 0 \<le> ?n"
    using assms by (cases base) simp_all
  then have "[Suc 0..<Suc ?n] = [Suc 0..<?n] @ [?n]"
    by (rule upt_Suc_append)
  then have hi: "[1..<?n] @ [?n] = map Suc [0..<?n]"
    by (simp only: map_Suc_upt One_nat_def)
  have "split_at base [1..<?n] = map (\<lambda>i. slice base i (Suc i)) [0..<?n]"
    unfolding split_at_def lo hi by (simp add: zip_map2 zip_same_conv_map comp_def)
  also have "\<dots> = map (\<lambda>i. [base ! i]) [0..<?n]"
    by (intro map_cong refl) (simp add: slice_single)
  also have "\<dots> = map (\<lambda>v. [v]) base"
    by (rule nth_equalityI) simp_all
  finally show ?thesis .
qed

lemma fold_assign_group_singletons:
  "distinct vs \<Longrightarrow> i < length vs \<Longrightarrow>
   fold (assign_group (Fin (of_int (vs ! i)))) (enumerate j (map (\<lambda>u. [u]) vs)) y =
   Fin (of_nat (j + i))"
proof (induction vs arbitrary: i j y)
  case Nil
  then show ?case by simp
next
  case (Cons u us)
  show ?case
  proof (cases i)
    case 0
    have "u \<notin> set (concat (map (\<lambda>u. [u]) us))"
      using Cons.prems(1) by simp
    then show ?thesis
      by (simp add: 0 assign_group_int fold_assign_group_miss)
  next
    case (Suc i')
    then show ?thesis
      using Cons.IH [of i' "Suc j"] Cons.prems by simp
  qed
qed

lemma count_list_labels:
  "\<forall>x\<in>set a. \<exists>j. x = Fin (real j) \<Longrightarrow>
   count_list (map astype_int a) (int k) = count_list a (Fin (real k))"
  by (induction a) auto

lemma filter_no_nan: "\<forall>x\<in>set a. \<not> isnan x \<Longrightarrow> filter (\<lambda>x. \<not> isnan x) a = a"
  by (induction a) auto

text \<open>
  A sequence that holds each of the labels \<open>0, ..., n - 1\<close> exactly \<open>m\<close> times, for
  \<open>n \<ge> 2\<close> and \<open>m \<ge> 1\<close>, is returned unchanged by \<open>bin_sequence\<close> with
  \<open>nbins = n\<close>.
\<close>

lemma bin_sequence_rebin:
  assumes n: "2 \<le> n" and m: "0 < m"
    and labels: "\<forall>x\<in>set a. \<exists>k<n. x = Fin (real k)"
    and uniform: "\<forall>k<n. count_list a (Fin (real k)) = m"
  shows "bin_sequence a (int n) = Inr a"
proof -
  let ?range = "[0..int n - 1]"
  let ?singles = "map (\<lambda>v. [v]) ?range"
  have len: "length ?range = n"
    using n by simp
  have nth: "?range ! k = int k" if "k < n" for k
    using that by simp
  have occurs: "Fin (real k) \<in> set a" if "k < n" for k
  proof -
    from that uniform m have "count_list a (Fin (real k)) \<noteq> 0"
      by simp
    then show ?thesis
      by (simp add: count_list_0_iff)
  qed
  have valid: "integer_or_nan a"
    using labels by (auto simp: integer_or_nan_def list_all_iff isinteger_def)
  have not_nan: "\<forall>x\<in>set a. \<not> isnan x"
    using labels by auto
  have "\<exists>x\<in>set a. \<not> isnan x"
    using occurs [of 0] n not_nan by auto
  with valid obtain amin amax where range: "value_range a = Inr (amin, amax)"
    and attained: "Fin (of_int amin) \<in> set a" "Fin (of_int amax) \<in> set a"
    using value_range_attained by blast
  have bounds: "amin \<le> v \<and> v \<le> amax" if "Fin (of_int v) \<in> set a" for v
    using valid range that by (rule value_range_bounds)
  have "amin = 0"
  proof -
    from attained(1) labels obtain k where "of_int amin = real k"
      by force
    then have "0 \<le> amin"
      by linarith
    moreover have "amin \<le> 0"
      using bounds [of 0] occurs [of 0] n by simp
    ultimately show ?thesis by simp
  qed
  moreover have "amax = int n - 1"
  proof -
    from attained(2) labels obtain k where "k < n" "of_int amax = real k"
      by force
    then have "amax \<le> int n - 1"
      by linarith
    moreover have "int (n - 1) \<le> amax"
      using bounds [of "int (n - 1)"] occurs [of "n - 1"] n by simp
    ultimately show ?thesis using n by linarith
  qed
  ultimately have range: "value_range a = Inr (0, int n - 1)"
    using range by simp
  have gen: "generate_bins ?range (int n) = Inr [?singles]"
  proof -
    have "combs [1..<n] (length [1..<n]) = [[1..<n]]"
      by (rule combs_all)
    moreover have "nat (int n - 1) = length [1..<n]"
      using n by simp
    ultimately have all: "combs [1..<n] (nat (int n - 1)) = [[1..<n]]"
      by (simp only:)
    have "?range \<noteq> []"
      using n by simp
    then have "split_at ?range [1..<length ?range] = ?singles"
      by (rule split_at_singletons)
    then have singles: "split_at ?range [1..<n] = ?singles"
      by (simp only: len)
    have "generate_bins ?range (int n) = Inr (map (split_at ?range) (combs [1..<n] (nat (int n - 1))))"
      using n generate_bins_Inr [of "int n" ?range] by (simp only: len)
    then show ?thesis
      by (simp only: all singles list.map)
  qed
  have app: "apply_binning a ?singles = a"
  proof -
    have "fold (assign_group x) (enumerate 0 ?singles) NaN = x" if "x \<in> set a" for x
    proof -
      from that labels obtain k where k: "k < n" "x = Fin (real k)"
        by blast
      have "distinct ?range" "k < length ?range"
        using k(1) by (simp_all add: len)
      from fold_assign_group_singletons [OF this, of 0 NaN] show ?thesis
        by (simp add: nth [OF k(1)] k(2))
    qed
    then show ?thesis
      by (simp add: apply_binning_map map_idI)
  qed
  let ?ls = "map astype_int a"
  let ?counts = "map (\<lambda>k. count_list ?ls (int k)) [0..<n]"
  have counts: "bincount (map astype_int (filter (\<lambda>x. \<not> isnan x) a)) = Inr ?counts"
  proof -
    have all: "\<forall>l\<in>set ?ls. 0 \<le> l \<and> l \<le> int n - 1"
      using labels by fastforce
    have "int (n - 1) \<in> set ?ls"
      using occurs [of "n - 1"] n by force
    then have top: "int n - 1 \<in> set ?ls"
      using n by (simp add: of_nat_diff)
    have "Max (set ?ls) = int n - 1"
      using all top by (intro Max_eqI) auto
    moreover have "\<not> list_ex (\<lambda>v. v < 0) ?ls"
      using all by (auto simp: list_ex_iff)
    moreover have "?ls \<noteq> []"
      using top by auto
    moreover have "Suc (nat (int n - 1)) = n"
      using n by simp
    ultimately show ?thesis
      by (simp add: bincount_def filter_no_nan [OF not_nan] del: upt_Suc)
  qed
  have each: "count_list ?ls (int k) = m" if "k < n" for k
  proof -
    have "\<forall>x\<in>set a. \<exists>j. x = Fin (real j)"
      using labels by blast
    then have "count_list ?ls (int k) = count_list a (Fin (real k))"
      by (rule count_list_labels)
    with that uniform show ?thesis
      by simp
  qed
  have "?counts = map (\<lambda>k. m) [0..<n]"
    by (intro map_cong refl) (simp add: each)
  then have occupied: "0 \<notin> set ?counts" and two: "2 \<le> length ?counts"
    using m n by auto
  have "get_h a = Inr (Fin (shannon ?counts))"
    using counts occupied by (rule get_h_occupied)
  moreover have "0 < shannon ?counts"
    using occupied two by (rule shannon_pos)
  ultimately have "search a [?singles] (Fin 0, None) = Inr (Fin (shannon ?counts), Some ?singles)"
    by (simp add: evaluate_binning_def app)
  then show ?thesis
    using valid range gen by (simp add: bin_sequence_def app del: search.simps)
qed

section \<open>The documented example\<close>

lemma log2_of_2_3_powers: "log 2 (2 ^ a * 3 ^ b) = real a + real b * log 2 3"
  by (simp add: log_mult_pos log_nat_power)

lemma log2_of_5_power: "log 2 (5 ^ c) = real c * log 2 5"
  by (simp add: log_nat_power)

lemma log2_5_3_lower: "137 + 60 * log 2 3 < 100 * log 2 5"
proof -
  have "137 + 60 * log 2 3 = log 2 (2 ^ 137 * 3 ^ 60)"
    using log2_of_2_3_powers [of 137 60] by simp
  also have "\<dots> < log 2 (5 ^ 100)"
    by simp
  also have "\<dots> = 100 * log 2 5"
    using log2_of_5_power [of 100] by simp
  finally show ?thesis .
qed

lemma log2_5_3_upper: "250 * log 2 5 < 343 + 150 * log 2 3"
proof -
  have "250 * log 2 5 = log 2 (5 ^ 250)"
    using log2_of_5_power [of 250] by simp
  also have "\<dots> < log 2 (2 ^ 343 * 3 ^ 150)"
    by simp
  also have "\<dots> = 343 + 150 * log 2 3"
    using log2_of_2_3_powers [of 343 150] by simp
  finally show ?thesis .
qed

lemma example_entropy:
  "97 / 100 < - (2 / 5 * log 2 (2 / 5) + 3 / 5 * log 2 (3 / 5))"
  "- (2 / 5 * log 2 (2 / 5) + 3 / 5 * log 2 (3 / 5)) < 972 / 1000"
proof -
  have eq: "- (2 / 5 * log 2 (2 / 5) + 3 / 5 * log 2 (3 / 5)) = log 2 5 - 2 / 5 - 3 / 5 * log 2 3"
    by (simp add: log_divide_pos field_simps)
  show "97 / 100 < - (2 / 5 * log 2 (2 / 5) + 3 / 5 * log 2 (3 / 5))"
    unfolding eq using log2_5_3_lower by simp
  show "- (2 / 5 * log 2 (2 / 5) + 3 / 5 * log 2 (3 / 5)) < 972 / 1000"
    unfolding eq using log2_5_3_upper by simp
qed

lemma example_score_first: "evaluate_binning [Fin 0, Fin 0, Fin 0, Fin 0, Fin 1, Fin 1, Fin 2, Fin 2, Fin 2, Fin 2] [[0], [1, 2]]
   = Inr (Fin (- (2 / 5 * log 2 (2 / 5) + 3 / 5 * log 2 (3 / 5))))"
  by (simp add: eval_defs)

lemma example_score_second: "evaluate_binning [Fin 0, Fin 0, Fin 0, Fin 0, Fin 1, Fin 1, Fin 2, Fin 2, Fin 2, Fin 2] [[0, 1], [2]]
   = Inr (Fin (- (2 / 5 * log 2 (2 / 5) + 3 / 5 * log 2 (3 / 5))))"
  by (simp add: eval_defs)

lemma example_partitions: "generate_bins [0..2] 2 = Inr [[[0], [1, 2]], [[0, 1], [2]]]"
  by (simp add: generate_bins_def combinations_def split_at_def slice_def eval_nat_numeral upto_rec1)

lemma example_apply_first:
  "apply_binning [Fin 0, Fin 0, Fin 0, Fin 0, Fin 1, Fin 1, Fin 2, Fin 2, Fin 2, Fin 2] [[0], [1, 2]]
   = [Fin 0, Fin 0, Fin 0, Fin 0, Fin 1, Fin 1, Fin 1, Fin 1, Fin 1, Fin 1]"
  by (simp add: apply_binning_def masked_assign_def enumerate_eq_zip)

lemma example_apply_second:
  "apply_binning [Fin 0, Fin 0, Fin 0, Fin 0, Fin 1, Fin 1, Fin 2, Fin 2, Fin 2, Fin 2] [[0, 1], [2]]
   = [Fin 0, Fin 0, Fin 0, Fin 0, Fin 0, Fin 0, Fin 1, Fin 1, Fin 1, Fin 1]"
  by (simp add: apply_binning_def masked_assign_def enumerate_eq_zip)

lemma example_range:
  "integer_or_nan [Fin 0, Fin 0, Fin 0, Fin 0, Fin 1, Fin 1, Fin 2, Fin 2, Fin 2, Fin 2]"
  "value_range [Fin 0, Fin 0, Fin 0, Fin 0, Fin 1, Fin 1, Fin 2, Fin 2, Fin 2, Fin 2] = Inr (0, 2)"
  by (simp_all add: integer_or_nan_def isinteger_def value_range_def nanmin_def nanmax_def)

lemma example_search:
  "search [Fin 0, Fin 0, Fin 0, Fin 0, Fin 1, Fin 1, Fin 2, Fin 2, Fin 2, Fin 2]
     [[[0], [1, 2]], [[0, 1], [2]]] (Fin 0, None)
   = Inr (Fin (- (2 / 5 * log 2 (2 / 5) + 3 / 5 * log 2 (3 / 5))), Some [[0], [1, 2]])"
proof -
  have "0 < - (2 / 5 * log 2 (2 / 5) + 3 / 5 * log 2 (3 / 5))"
    using example_entropy(1) by linarith
  then show ?thesis
    by (simp add: example_score_first example_score_second)
qed

text \<open>
  C1. On the input \<open>[0,0,0,0,1,1,2,2,2,2]\<close> with \<open>nbins = 2\<close> the generator yields
  the partitions \<open>{[0],[1,2]}\<close> and \<open>{[0,1],[2]}\<close> of the range \<open>[0, 2]\<close>, in
  this order. Both score the same entropy, which lies between 0.970 and 0.972; the second
  is not strictly greater than the first, so the first partition is kept, and the result
  is the first partition applied, \<open>[0,0,0,0,1,1,1,1,1,1]\<close> (the second would give
  \<open>[0,0,0,0,0,0,1,1,1,1]\<close>).
\<close>

theorem bin_sequence_example:
  "generate_bins [0..2] 2 = Inr [[[0], [1, 2]], [[0, 1], [2]]] \<and>
   (\<exists>h. evaluate_binning [Fin 0, Fin 0, Fin 0, Fin 0, Fin 1, Fin 1, Fin 2, Fin 2, Fin 2, Fin 2]
          [[0], [1, 2]] = Inr (Fin h) \<and>
        evaluate_binning [Fin 0, Fin 0, Fin 0, Fin 0, Fin 1, Fin 1, Fin 2, Fin 2, Fin 2, Fin 2]
          [[0, 1], [2]] = Inr (Fin h) \<and>
        970 / 1000 < h \<and> h < 972 / 1000 \<and> \<not> fgt (Fin h) (Fin h)) \<and>
   bin_sequence [Fin 0, Fin 0, Fin 0, Fin 0, Fin 1, Fin 1, Fin 2, Fin 2, Fin 2, Fin 2] 2
     = Inr [Fin 0, Fin 0, Fin 0, Fin 0, Fin 1, Fin 1, Fin 1, Fin 1, Fin 1, Fin 1] \<and>
   apply_binning [Fin 0, Fin 0, Fin 0, Fin 0, Fin 1, Fin 1, Fin 2, Fin 2, Fin 2, Fin 2] [[0], [1, 2]]
     = [Fin 0, Fin 0, Fin 0, Fin 0, Fin 1, Fin 1, Fin 1, Fin 1, Fin 1, Fin 1] \<and>
   apply_binning [Fin 0, Fin 0, Fin 0, Fin 0, Fin 1, Fin 1, Fin 2, Fin 2, Fin 2, Fin 2] [[0, 1], [2]]
     = [Fin 0, Fin 0, Fin 0, Fin 0, Fin 0, Fin 0, Fin 1, Fin 1, Fin 1, Fin 1]"
proof -
  let ?a = "[Fin 0, Fin 0, Fin 0, Fin 0, Fin 1, Fin 1, Fin 2, Fin 2, Fin 2, Fin 2]"
  let ?h = "- (2 / 5 * log 2 (2 / 5) + 3 / 5 * log 2 (3 / 5)) :: real"
  have scores: "evaluate_binning ?a [[0], [1, 2]] = Inr (Fin ?h) \<and>
      evaluate_binning ?a [[0, 1], [2]] = Inr (Fin ?h) \<and>
      970 / 1000 < ?h \<and> ?h < 972 / 1000 \<and> \<not> fgt (Fin ?h) (Fin ?h)"
    using example_score_first example_score_second example_entropy by simp
  have result: "bin_sequence ?a 2 = Inr (apply_binning ?a [[0], [1, 2]])"
    by (simp add: bin_sequence_def example_range example_partitions example_search del: search.simps)
  from scores have "\<exists>h. evaluate_binning ?a [[0], [1, 2]] = Inr (Fin h) \<and>
      evaluate_binning ?a [[0, 1], [2]] = Inr (Fin h) \<and>
      970 / 1000 < h \<and> h < 972 / 1000 \<and> \<not> fgt (Fin h) (Fin h)"
    by (rule exI)
  then show ?thesis
    using example_partitions result example_apply_first example_apply_second by simp
qed

section \<open>Where the code departs from its documentation\<close>

lemma generate_bins_one: "generate_bins seq 1 = Inr [[seq]]"
  by (simp add: generate_bins_def combinations_def split_at_def slice_def)

lemma apply_binning_whole_range:
  assumes valid: "integer_or_nan a" and range: "value_range a = Inr (amin, amax)"
  shows "apply_binning a [[amin..amax]] = map (\<lambda>x. if isnan x then NaN else Fin 0) a"
proof -
  have "fold (assign_group x) (enumerate 0 [[amin..amax]]) NaN = (if isnan x then NaN else Fin 0)"
    if x: "x \<in> set a" for x
  proof (cases "isnan x")
    case True
    then have "x = NaN" by (rule isnan_NaN)
    then show ?thesis by (simp add: assign_group_def list_ex_iff)
  next
    case False
    with integer_or_nan_elem [OF valid x] obtain v where v: "x = Fin (of_int v)"
      by auto
    with x value_range_bounds [OF valid range] have "v \<in> set [amin..amax]"
      by simp
    then show ?thesis
      using False by (simp add: v assign_group_int)
  qed
  then show ?thesis
    by (simp add: apply_binning_map)
qed

lemma labels_single_group:
  "map astype_int (filter (\<lambda>x. \<not> isnan x) (map (\<lambda>x. if isnan x then NaN else Fin 0) a)) =
   replicate (length (filter (\<lambda>x. \<not> isnan x) a)) 0"
  by (induction a) simp_all

lemma count_list_replicate: "count_list (replicate n x) x = n"
  by (induction n) simp_all

lemma bincount_single: "0 < n \<Longrightarrow> bincount (replicate n 0) = Inr [n]"
  by (simp add: bincount_def list_ex_iff count_list_replicate)

lemma get_h_single_group:
  assumes "\<exists>x\<in>set a. \<not> isnan x"
  shows "get_h (map (\<lambda>x. if isnan x then NaN else Fin 0) a) = Inr (Fin 0)"
proof -
  have "0 < length (filter (\<lambda>x. \<not> isnan x) a)"
    using assms by (simp add: filter_empty_conv)
  then show ?thesis
    by (simp add: get_h_def labels_single_group bincount_single ma_filled_def np_sum_def)
qed

text \<open>
  C2. With \<open>nbins = 1\<close> the only candidate is the whole range as one group; its
  entropy is 0, which is not greater than the initial \<open>best_h = 0.\<close>, so
  \<open>best_binning\<close> is never assigned. On every input that passes the assertion and has
  an element that is not NaN, \<open>bin_sequence\<close> with \<open>nbins = 1\<close> raises an
  UnboundLocalError instead of mapping every element to group 0.
\<close>

theorem bin_sequence_one_bin:
  assumes valid: "integer_or_nan a" and some: "list_ex (\<lambda>x. \<not> isnan x) a"
  shows "bin_sequence a 1 = Inl UnboundLocalError"
proof -
  from some have some': "\<exists>x\<in>set a. \<not> isnan x"
    by (simp add: list_ex_iff)
  with valid obtain amin amax where range: "value_range a = Inr (amin, amax)"
    using value_range_attained by blast
  have "evaluate_binning a [[amin..amax]] = Inr (Fin 0)"
    using some' by (simp add: evaluate_binning_def apply_binning_whole_range [OF valid range]
        get_h_single_group)
  then show ?thesis
    using valid range by (simp add: bin_sequence_def generate_bins_one)
qed

theorem bin_sequence_one_bin_witness:
  "integer_or_nan [Fin 0, Fin 1, Fin 2] \<and> list_ex (\<lambda>x. \<not> isnan x) [Fin 0, Fin 1, Fin 2] \<and>
   generate_bins [0..2] 1 = Inr [[[0, 1, 2]]] \<and>
   evaluate_binning [Fin 0, Fin 1, Fin 2] [[0, 1, 2]] = Inr (Fin 0) \<and>
   bin_sequence [Fin 0, Fin 1, Fin 2] 1 = Inl UnboundLocalError"
proof -
  have h1: "integer_or_nan [Fin 0, Fin 1, Fin 2]"
    by (simp add: integer_or_nan_def isinteger_def)
  have h2: "list_ex (\<lambda>x. \<not> isnan x) [Fin 0, Fin 1, Fin 2]"
    by simp
  have "generate_bins [0..2] 1 = Inr [[[0, 1, 2]]]"
    by (simp add: generate_bins_one upto_rec1)
  moreover have "evaluate_binning [Fin 0, Fin 1, Fin 2] [[0, 1, 2]] = Inr (Fin 0)"
    by (simp add: eval_defs)
  ultimately show ?thesis
    using h1 h2 bin_sequence_one_bin [OF h1 h2] by simp
qed

text \<open>
  C4. A group without occurrences between two occupied groups has probability 0;
  \<open>pdf * np.log2(pdf)\<close> is NaN there, \<open>np.ma.filled\<close> leaves the plain array as it
  is, and the entropy returned is NaN, not the entropy 1 of the histogram \<open>{2, 0, 2}\<close>.
\<close>

theorem evaluate_binning_empty_group:
  "evaluate_binning [Fin 0, Fin 0, Fin 2, Fin 2] [[0], [1], [2]] = Inr NaN"
  by (simp add: eval_defs)

text \<open>
  The only partition of this input into three groups is therefore never selected, and
  \<open>bin_sequence\<close> fails although a binning of entropy 1 exists.
\<close>

lemma bin_sequence_empty_group_fails:
  "bin_sequence [Fin 0, Fin 0, Fin 2, Fin 2] 3 = Inl UnboundLocalError"
  by (simp add: eval_defs)

text \<open>
  C9. The sequence \<open>[0, 0]\<close> holds exactly the label 0 of a binning with
  \<open>nbins = 1\<close>; binning it again with \<open>nbins = 1\<close> raises an UnboundLocalError instead
  of returning it unchanged.
\<close>

theorem bin_sequence_rebin_single_label:
  "bin_sequence [Fin 0, Fin 0] 1 = Inl UnboundLocalError"
  by (simp add: eval_defs)

text \<open>With three labels, each occurring twice, the sequence is returned unchanged.\<close>

lemma bin_sequence_rebin_three_labels:
  "bin_sequence [Fin 0, Fin 0, Fin 1, Fin 1, Fin 2, Fin 2] 3 =
     Inr [Fin 0, Fin 0, Fin 1, Fin 1, Fin 2, Fin 2]"
  by (simp add: eval_defs)

text \<open>
  C6. The code has no check of \<open>nbins\<close>. On an input that passes the assertion and has
  a value range \<open>[amin, amax]\<close>, a call with \<open>nbins < 1\<close> fails inside
  \<open>itertools.combinations\<close> with its ValueError ("r must be non-negative"). A call with
  \<open>nbins\<close> greater than the number \<open>amax - amin + 1\<close> of integers in the range runs
  the loop over no candidate and fails at the return statement with the UnboundLocalError
  of the unassigned \<open>best_binning\<close>, as for \<open>[1, 1, 2, 2]\<close> with \<open>nbins = 5\<close>.
  No binning is returned, but neither failure is an error about the number of bins: the
  second is the same read of an unassigned variable as in C2 and C9.
\<close>

theorem bin_sequence_infeasible:
  assumes "integer_or_nan a" and "value_range a = Inr (amin, amax)"
    and "nbins < 1 \<or> amax - amin + 1 < nbins"
  shows "bin_sequence a nbins = Inl (if nbins < 1 then ValueError else UnboundLocalError)"
proof (cases "nbins < 1")
  case True
  then show ?thesis
    using assms(1,2) by (simp add: bin_sequence_def generate_bins_Inl)
next
  case False
  have le: "amin \<le> amax"
    using assms(1,2) by (rule value_range_le)
  from False assms(3) have "length [1..<length [amin..amax]] < nat (nbins - 1)"
    using le by simp
  then have "combs [1..<length [amin..amax]] (nat (nbins - 1)) = []"
    by (rule combs_too_many)
  then have "generate_bins [amin..amax] nbins = Inr []"
    using False by (simp add: generate_bins_Inr)
  then show ?thesis
    using False assms(1,2) by (simp add: bin_sequence_def)
qed

theorem bin_sequence_infeasible_witness:
  "integer_or_nan [Fin 1, Fin 1, Fin 2, Fin 2] \<and>
   value_range [Fin 1, Fin 1, Fin 2, Fin 2] = Inr (1, 2) \<and>
   bin_sequence [Fin 1, Fin 1, Fin 2, Fin 2] 5 = Inl UnboundLocalError \<and>
   bin_sequence [Fin 1, Fin 1, Fin 2, Fin 2] 0 = Inl ValueError"
proof -
  have h1: "integer_or_nan [Fin 1, Fin 1, Fin 2, Fin 2]"
    by (simp add: integer_or_nan_def isinteger_def)
  have h2: "value_range [Fin 1, Fin 1, Fin 2, Fin 2] = Inr (1, 2)"
    by (simp add: value_range_def nanmin_def nanmax_def)
  show ?thesis
    using h1 h2 bin_sequence_infeasible [OF h1 h2, of 5] bin_sequence_infeasible [OF h1 h2, of 0]
    by simp
qed

section \<open>The input array is never written\<close>

lemma fold_masked_store:
  "pa \<noteq> pb \<Longrightarrow> pb < length h \<Longrightarrow>
   fold (\<lambda>some_number h. masked_store h pa pb some_number ii) some_bin h =
   h[pb := fold (\<lambda>some_number b. masked_assign (h ! pa) b some_number ii) some_bin (h ! pb)]"
proof (induction some_bin arbitrary: h)
  case Nil
  then show ?case by simp
next
  case (Cons n ns)
  let ?h = "masked_store h pa pb n ii"
  have "pb < length ?h" "?h ! pa = h ! pa"
    "?h ! pb = masked_assign (h ! pa) (h ! pb) n ii"
    using Cons.prems by (simp_all add: masked_store_def)
  then show ?case
    using Cons.IH [of ?h] Cons.prems by (simp add: masked_store_def)
qed

lemma fold_groups_store:
  "pa \<noteq> pb \<Longrightarrow> pb < length h \<Longrightarrow>
   fold (\<lambda>(ii, some_bin) h. fold (\<lambda>some_number h. masked_store h pa pb some_number ii) some_bin h) gs h =
   h[pb := fold (\<lambda>(ii, some_bin) b. fold (\<lambda>some_number b. masked_assign (h ! pa) b some_number ii) some_bin b)
             gs (h ! pb)]"
proof (induction gs arbitrary: h)
  case Nil
  then show ?case by simp
next
  case (Cons g gs)
  obtain ii some_bin where g: "g = (ii, some_bin)"
    by (cases g)
  let ?b = "fold (\<lambda>some_number b. masked_assign (h ! pa) b some_number ii) some_bin (h ! pb)"
  let ?h = "h[pb := ?b]"
  have "pb < length ?h" "?h ! pa = h ! pa" "?h ! pb = ?b"
    using Cons.prems by simp_all
  then show ?case
    using Cons.IH [of ?h] Cons.prems by (simp add: g fold_masked_store)
qed

lemma apply_binning_heap_eq:
  assumes "pa < length h"
  shows "apply_binning_heap h pa binning =
         (h @ [apply_binning (h ! pa) binning, apply_binning (h ! pa) binning], Suc (length h))"
proof -
  let ?h1 = "h @ [replicate (length (h ! pa)) NaN]"
  have "pa \<noteq> length h" "length h < length ?h1" "?h1 ! pa = h ! pa"
    "?h1 ! length h = replicate (length (h ! pa)) NaN"
    using assms by (simp_all add: nth_append)
  then show ?thesis
    using fold_groups_store [of pa "length h" ?h1 "enumerate 0 binning"]
    by (simp add: apply_binning_heap_def alloc_def apply_binning_def Let_def)
qed

lemma evaluate_binning_heap_eq:
  "pa < length h \<Longrightarrow>
   evaluate_binning_heap h pa binning =
   (h @ [apply_binning (h ! pa) binning, apply_binning (h ! pa) binning],
    evaluate_binning (h ! pa) binning)"
  by (simp add: evaluate_binning_heap_def apply_binning_heap_eq evaluate_binning_def nth_append)

lemma search_heap_eq:
  "pa < length h \<Longrightarrow>
   \<exists>ext. search_heap h pa binnings st = (h @ ext, search (h ! pa) binnings st)"
proof (induction binnings arbitrary: h st)
  case Nil
  then show ?case by simp
next
  case (Cons binning rest)
  obtain best_h best_binning where st: "st = (best_h, best_binning)"
    by (cases st)
  let ?r = "apply_binning (h ! pa) binning"
  let ?h1 = "h @ [?r, ?r]"
  have pa1: "pa < length ?h1" and a1: "?h1 ! pa = h ! pa"
    using Cons.prems by (simp_all add: nth_append)
  show ?case
  proof (cases "evaluate_binning (h ! pa) binning")
    case (Inl e)
    then show ?thesis
      using Cons.prems by (simp add: st evaluate_binning_heap_eq)
  next
    case (Inr hh)
    from Cons.IH [OF pa1, of "(hh, Some binning)"] Cons.IH [OF pa1, of "(best_h, best_binning)"]
    obtain e1 e2 where
      "search_heap ?h1 pa rest (hh, Some binning) = (?h1 @ e1, search (h ! pa) rest (hh, Some binning))"
      "search_heap ?h1 pa rest (best_h, best_binning) = (?h1 @ e2, search (h ! pa) rest (best_h, best_binning))"
      unfolding a1 by blast
    then show ?thesis
      using Cons.prems Inr by (simp add: st evaluate_binning_heap_eq)
  qed
qed

text \<open>
  C10. A call of \<open>bin_sequence\<close> on the array at \<open>pa\<close>, whether it returns or
  raises, leaves every array that existed before the call as it was, the input among
  them: the store only grows. What it returns is a reference to an array allocated during
  the call, holding the result of \<open>bin_sequence\<close> on the input's elements; when it
  raises, it raises what \<open>bin_sequence\<close> raises on them.
\<close>

theorem bin_sequence_heap_frame:
  assumes "pa < length h"
  shows "case bin_sequence_heap h pa nbins of
           (h', r) \<Rightarrow>
             take (length h) h' = h \<and> h' ! pa = h ! pa \<and>
             (case r of
                Inl e \<Rightarrow> bin_sequence (h ! pa) nbins = Inl e
              | Inr pb \<Rightarrow> length h \<le> pb \<and> pb < length h' \<and>
                  bin_sequence (h ! pa) nbins = Inr (h' ! pb))"
proof (cases "integer_or_nan (h ! pa)")
  case False
  then show ?thesis
    by (simp add: bin_sequence_heap_def bin_sequence_def)
next
  case valid: True
  show ?thesis
  proof (cases "value_range (h ! pa)")
    case (Inl e)
    then show ?thesis
      using valid by (simp add: bin_sequence_heap_def bin_sequence_def)
  next
    case (Inr range)
    obtain amin amax where range: "range = (amin, amax)"
      by (cases range)
    show ?thesis
    proof (cases "generate_bins [amin..amax] nbins")
      case (Inl e)
      then show ?thesis
        using valid Inr range by (simp add: bin_sequence_heap_def bin_sequence_def)
    next
      case gen: (Inr binnings)
      obtain ext where search:
        "search_heap h pa binnings (Fin 0, None) = (h @ ext, search (h ! pa) binnings (Fin 0, None))"
        using search_heap_eq [OF assms] by blast
      have pa1: "pa < length (h @ ext)" and a1: "(h @ ext) ! pa = h ! pa"
        using assms by (simp_all add: nth_append)
      show ?thesis
        using valid Inr range gen search assms
        by (simp add: bin_sequence_heap_def bin_sequence_def apply_binning_heap_eq [OF pa1] a1
            nth_append split: sum.splits option.splits)
    qed
  qed
qed

lemma heap_example:
  "bin_sequence_heap [[Fin 0, NaN, Fin 1]] 0 2 =
     ([[Fin 0, NaN, Fin 1], [Fin 0, NaN, Fin 1], [Fin 0, NaN, Fin 1], [Fin 0, NaN, Fin 1],
       [Fin 0, NaN, Fin 1]], Inr 4)"
  by (simp add: bin_sequence_heap_def evaluate_binning_heap_def apply_binning_heap_def alloc_def
      masked_store_def eval_defs)

theorem bin_sequence_heap_frame_witness:
  "(0::nat) < length [[Fin 0, NaN, Fin 1]] \<and>
   (case bin_sequence_heap [[Fin 0, NaN, Fin 1]] 0 2 of
      (h', r) \<Rightarrow>
        take (length [[Fin 0, NaN, Fin 1]]) h' = [[Fin 0, NaN, Fin 1]] \<and>
        h' ! 0 = [[Fin 0, NaN, Fin 1]] ! 0 \<and>
        (case r of
           Inl e \<Rightarrow> bin_sequence ([[Fin 0, NaN, Fin 1]] ! 0) 2 = Inl e
         | Inr pb \<Rightarrow> length [[Fin 0, NaN, Fin 1]] \<le> pb \<and> pb < length h' \<and>
             bin_sequence ([[Fin 0, NaN, Fin 1]] ! 0) 2 = Inr (h' ! pb)))"
proof -
  have h: "(0::nat) < length [[Fin 0, NaN, Fin 1]]"
    by simp
  show ?thesis
    using h bin_sequence_heap_frame [OF h, of 2] by blast
qed

end
